theory Spec2Isabelle
  imports Complex_Main "HOL-Library.AList"
begin

section \<open>Exceptions\<close>

text \<open>
  Every exception the modelled code can raise is a value of \<open>error\<close>. The Python
  \<open>ValueError\<close>s are kept apart by what raised them: the constructor of the prefetcher
  (unknown action name), the constructor of the standard library's thread pool
  (\<open>max_workers\<close> not positive), \<open>get_frame\<close> (index requested out of order; the
  message carries the requested and the expected index) and \<open>update_frame\<close> (no
  \<open>iq_id\<close> recorded for the frame).
\<close>

datatype error =
    ValueError_action string
  | ValueError_max_workers
  | ValueError_out_of_order int int
  | ValueError_no_iq_id int
  | IndexError
  | KeyError string
  | FileNotFoundError int
  | ValidationError
  | ServiceError string

section \<open>framework/prefetcher.py\<close>

subsection \<open>State of a FramePrefetcher\<close>

text \<open>
  A worker returns the dictionary \<open>{"index": index, "result": result}\<close>; it is the
  record \<open>fetched\<close>. The type \<open>'r\<close> is whatever the action on the frame returns.
\<close>

record 'r fetched =
  index :: int
  result :: 'r

datatype action = Process | Update

text \<open>
  The fields of the object, as \<open>__init__\<close> sets them. \<open>current_index\<close> starts at 0 and
  is only ever incremented, so it is a natural number; \<open>buffer_size\<close> and the frame
  indices are Python integers. The executor is its \<open>max_workers\<close> and the tasks it
  has been handed whose done-callback has not run yet (\<open>submitted\<close>, in submission
  order).
\<close>

record 'r FramePrefetcher =
  buffer_size :: int
  current_index :: nat
  indicies :: "int list"
  buffer :: "int \<rightharpoonup> 'r fetched"
  action_fn :: action
  in_progress :: "int set"
  max_workers :: int
  submitted :: "int list"

subsection \<open>Python list slicing\<close>

text \<open>
  \<open>xs[lo:hi]\<close> with step 1: a negative bound counts from the end, and both bounds
  are clamped to the list.
\<close>

definition slice_bound :: "nat \<Rightarrow> int \<Rightarrow> nat" where
  "slice_bound n i = (if i < 0 then nat (max 0 (int n + i)) else min (nat i) n)"

definition py_slice :: "'a list \<Rightarrow> int \<Rightarrow> int \<Rightarrow> 'a list" where
  "py_slice xs lo hi =
     (let a = slice_bound (length xs) lo; b = slice_bound (length xs) hi
      in take (b - a) (drop a xs))"

subsection \<open>Scheduling\<close>

text \<open>
  \<open>_schedule_prefetch\<close>, whose body runs under the lock. \<open>needed_indices\<close> is the
  window \<open>indicies[current_index : current_index + buffer_size]\<close>;
  \<open>indices_to_fetch\<close> is the set difference of the source, as a duplicate-free
  list (Python iterates the set in an unspecified order, and the state reached does not
  depend on it but for the order of \<open>submitted\<close>). \<open>launch\<close> is the loop
  body up to \<open>submit\<close>, and \<open>schedule_prefetch\<close> the state in which the call
  returns when every task it submits is still unfinished at the moment its
  done-callback is attached. What the call does when a task has finished by then is
  in the subsection on the lock below.
\<close>

definition needed_indices :: "'r FramePrefetcher \<Rightarrow> int list" where
  "needed_indices p =
     py_slice (indicies p) (int (current_index p)) (int (current_index p) + buffer_size p)"

definition indices_to_fetch :: "'r FramePrefetcher \<Rightarrow> int list" where
  "indices_to_fetch p =
     remdups (filter (\<lambda>i. buffer p i = None \<and> i \<notin> in_progress p) (needed_indices p))"

definition launch :: "int \<Rightarrow> 'r FramePrefetcher \<Rightarrow> 'r FramePrefetcher" where
  "launch idx p = p\<lparr>in_progress := insert idx (in_progress p),
                    submitted := submitted p @ [idx]\<rparr>"

definition schedule_prefetch :: "'r FramePrefetcher \<Rightarrow> 'r FramePrefetcher" where
  "schedule_prefetch p = fold launch (indices_to_fetch p) p"

subsection \<open>Construction\<close>

text \<open>
  \<open>ThreadPoolExecutor(max_workers=n)\<close> of the Python standard library raises
  \<open>ValueError\<close> when \<open>n \<le> 0\<close>; it is the only check on \<open>num_workers\<close>.
  \<open>__init__\<close> itself checks the action name only, and does so before it creates the
  executor.
\<close>

definition ThreadPoolExecutor :: "int \<Rightarrow> error + int" where
  "ThreadPoolExecutor n = (if n \<le> 0 then Inl ValueError_max_workers else Inr n)"

definition select_action :: "string \<Rightarrow> error + action" where
  "select_action a =
     (if a = ''process'' then Inr Process
      else if a = ''update'' then Inr Update
      else Inl (ValueError_action a))"

definition FramePrefetcher_init ::
  "int list \<Rightarrow> int \<Rightarrow> int \<Rightarrow> string \<Rightarrow> error + 'r FramePrefetcher" where
  "FramePrefetcher_init idxs bsize num_workers act =
     (case select_action act of
        Inl e \<Rightarrow> Inl e
      | Inr fn \<Rightarrow>
          (case ThreadPoolExecutor num_workers of
             Inl e \<Rightarrow> Inl e
           | Inr mw \<Rightarrow>
               Inr (schedule_prefetch
                     \<lparr>buffer_size = bsize, current_index = 0, indicies = idxs,
                      buffer = Map.empty, action_fn = fn, in_progress = {},
                      max_workers = mw, submitted = []\<rparr>)))"

subsection \<open>Workers\<close>

text \<open>
  \<open>_get_frame(index)\<close> builds the frame, runs the action on it and wraps what the
  action returned. What \<open>action_fn(frame_class(index))\<close> did is the argument
  \<open>outcome\<close>: the exception it raised or the value it returned.
\<close>

definition worker_get_frame :: "int \<Rightarrow> error + 'r \<Rightarrow> error + 'r fetched" where
  "worker_get_frame idx outcome =
     (case outcome of Inl e \<Rightarrow> Inl e | Inr r \<Rightarrow> Inr \<lparr>index = idx, result = r\<rparr>)"

text \<open>
  \<open>_store_frame_callback(future)\<close>. \<open>future.result()\<close> re-raises the exception of a
  failed task, so the \<open>try\<close> block is left before the lock is taken: nothing is
  stored and \<open>in_progress\<close> is not touched; the handler prints the exception and
  raises it again, inside the callback. On success the result is stored and the index
  removed from \<open>in_progress\<close> (\<open>set.remove\<close> raises \<open>KeyError\<close> on a missing
  element, after the store). The first component is the exception the callback raises.
\<close>

definition store_frame_callback ::
  "error + 'r fetched \<Rightarrow> 'r FramePrefetcher \<Rightarrow> error option \<times> 'r FramePrefetcher" where
  "store_frame_callback future p =
     (case future of
        Inl e \<Rightarrow> (Some e, p)
      | Inr res \<Rightarrow>
          (let p' = p\<lparr>buffer := (buffer p)(index res \<mapsto> res)\<rparr>
           in if index res \<in> in_progress p'
              then (None, p'\<lparr>in_progress := in_progress p' - {index res}\<rparr>)
              else (Some (KeyError ''in_progress''), p')))"

subsection \<open>The consumer\<close>

text \<open>
  \<open>get_frame(index)\<close> has three outcomes: it raises, it returns, or its polling loop
  \<open>while self.indicies[self.current_index] not in self.buffer\<close> does not exit in the
  state at hand (\<open>Blocked\<close>: the loop goes on until a worker stores the frame).
  \<open>self.indicies[self.current_index]\<close> raises \<open>IndexError\<close> once the list is
  exhausted.

  \<open>get_frame_pop\<close> is the method up to the end of its first locked block (check,
  wait, pop, increment); \<open>get_frame\<close> adds the call of \<open>_schedule_prefetch\<close> and
  the return.
\<close>

datatype 'a outcome = Raised error | Blocked | Returned 'a

definition get_frame_pop ::
  "int \<Rightarrow> 'r FramePrefetcher \<Rightarrow> ('r fetched \<times> 'r FramePrefetcher) outcome" where
  "get_frame_pop idx p =
     (if length (indicies p) \<le> current_index p then Raised IndexError
      else
        (let expected = indicies p ! current_index p
         in if idx \<noteq> expected then Raised (ValueError_out_of_order idx expected)
            else
              (case buffer p expected of
                 None \<Rightarrow> Blocked
               | Some data \<Rightarrow>
                   Returned (data, p\<lparr>buffer := (buffer p)(expected := None),
                                     current_index := current_index p + 1\<rparr>))))"

definition get_frame ::
  "int \<Rightarrow> 'r FramePrefetcher \<Rightarrow> ('r fetched \<times> 'r FramePrefetcher) outcome" where
  "get_frame idx p =
     (case get_frame_pop idx p of
        Returned (data, p') \<Rightarrow> Returned (data, schedule_prefetch p')
      | Raised e \<Rightarrow> Raised e
      | Blocked \<Rightarrow> Blocked)"

subsection \<open>The lock\<close>

text \<open>
  \<open>self.lock\<close> is a \<open>threading.Lock\<close>, which is not reentrant: a thread that
  holds it and asks for it again waits for ever. \<open>_schedule_prefetch\<close> holds it
  for its whole loop, and the loop attaches the done-callback itself.
  \<open>future.add_done_callback(fn)\<close> of the standard library appends \<open>fn\<close> to the
  callbacks of a future that has not finished; on a future that has already finished
  it calls \<open>fn(future)\<close> at once, in the calling thread, and logs and drops an
  exception \<open>fn\<close> raises. So the future's state at that moment decides
  (\<open>finished\<close>: \<open>None\<close> while the task is pending or running, otherwise what the
  task ended with):
  \<^item> not finished: the callback runs later, on the worker's thread (the event
    \<open>Finish\<close> below);
  \<^item> finished with an exception: \<open>_store_frame_callback\<close> runs in the scheduling
    thread, \<open>future.result()\<close> raises before the lock is asked for, the handler
    prints and raises, and the loop goes on, the task being done;
  \<^item> finished with a result: \<open>_store_frame_callback\<close> runs in the scheduling
    thread and reaches \<open>with self.lock\<close> while that thread holds the lock. The call
    never returns (\<open>Deadlock\<close>, with the state it is stuck in): nothing is stored,
    and every other callback waits for the lock as well.
\<close>

datatype 'a locked = Completed 'a | Deadlock 'a

definition add_done_callback ::
  "int \<Rightarrow> (error + 'r) option \<Rightarrow> 'r FramePrefetcher \<Rightarrow> 'r FramePrefetcher locked" where
  "add_done_callback idx finished p =
     (case finished of
        None \<Rightarrow> Completed p
      | Some outcome \<Rightarrow>
          (case worker_get_frame idx outcome of
             Inl e \<Rightarrow> Completed (p\<lparr>submitted := remove1 idx (submitted p)\<rparr>)
           | Inr res \<Rightarrow> Deadlock (p\<lparr>submitted := remove1 idx (submitted p)\<rparr>)))"

text \<open>
  \<open>_schedule_prefetch\<close> in full: \<open>finished idx\<close> is the state of the future for
  \<open>idx\<close> when its callback is attached. \<open>schedule_loop\<close> is the \<open>for\<close>
  loop.
\<close>

fun schedule_loop ::
  "(int \<Rightarrow> (error + 'r) option) \<Rightarrow> int list \<Rightarrow> 'r FramePrefetcher
     \<Rightarrow> 'r FramePrefetcher locked" where
  "schedule_loop finished [] p = Completed p"
| "schedule_loop finished (idx # rest) p =
     (case add_done_callback idx (finished idx) (launch idx p) of
        Completed p' \<Rightarrow> schedule_loop finished rest p'
      | Deadlock p' \<Rightarrow> Deadlock p')"

definition schedule_prefetch_locked ::
  "(int \<Rightarrow> (error + 'r) option) \<Rightarrow> 'r FramePrefetcher \<Rightarrow> 'r FramePrefetcher locked" where
  "schedule_prefetch_locked finished p = schedule_loop finished (indices_to_fetch p) p"

text \<open>
  \<open>__init__\<close> and \<open>get_frame\<close> with this scheduling call. With every future
  unfinished when its callback is attached they are \<open>FramePrefetcher_init\<close> and
  \<open>get_frame\<close> above. Under \<open>Deadlock\<close> is what the call would have returned
  had its scheduling call come back: the object the constructor was building, the
  entry \<open>get_frame\<close> had popped. The caller never gets it.
\<close>

definition FramePrefetcher_init_locked ::
  "(int \<Rightarrow> (error + 'r) option) \<Rightarrow> int list \<Rightarrow> int \<Rightarrow> int \<Rightarrow> string
     \<Rightarrow> (error + 'r FramePrefetcher) locked" where
  "FramePrefetcher_init_locked finished idxs bsize num_workers act =
     (case select_action act of
        Inl e \<Rightarrow> Completed (Inl e)
      | Inr fn \<Rightarrow>
          (case ThreadPoolExecutor num_workers of
             Inl e \<Rightarrow> Completed (Inl e)
           | Inr mw \<Rightarrow>
               (case schedule_prefetch_locked finished
                       \<lparr>buffer_size = bsize, current_index = 0, indicies = idxs,
                        buffer = Map.empty, action_fn = fn, in_progress = {},
                        max_workers = mw, submitted = []\<rparr> of
                  Completed p \<Rightarrow> Completed (Inr p)
                | Deadlock p \<Rightarrow> Deadlock (Inr p))))"

definition get_frame_locked ::
  "(int \<Rightarrow> (error + 'r) option) \<Rightarrow> int \<Rightarrow> 'r FramePrefetcher
     \<Rightarrow> ('r fetched \<times> 'r FramePrefetcher) outcome locked" where
  "get_frame_locked finished idx p =
     (case get_frame_pop idx p of
        Returned (data, p') \<Rightarrow>
          (case schedule_prefetch_locked finished p' of
             Completed p'' \<Rightarrow> Completed (Returned (data, p''))
           | Deadlock p'' \<Rightarrow> Deadlock (Returned (data, p'')))
      | Raised e \<Rightarrow> Completed (Raised e)
      | Blocked \<Rightarrow> Completed Blocked)"

subsection \<open>Interleavings\<close>

text \<open>
  Workers and the consumer run concurrently, and every access to \<open>buffer\<close> and
  \<open>in_progress\<close> after construction is inside a locked block or is the consumer's
  unlocked membership test, which only workers can turn from false to true. An
  interleaving is therefore a list of events, each one atomic:
  \<^item> \<open>Finish idx outcome\<close>: the submitted task for \<open>idx\<close> ends with \<open>outcome\<close> and its
    done-callback runs;
  \<^item> \<open>Get idx\<close>: the consumer calls \<open>get_frame(idx)\<close> and gets as far as the pop (or
    the exception, which leaves the prefetcher as it was);
  \<^item> \<open>Resched\<close>: the same call runs \<open>_schedule_prefetch\<close>, which returns, and
    returns the popped entry. (A task that had failed before its callback was attached
    is a \<open>Finish\<close> right after; a scheduling call that never returns ends the
    run, in a state \<open>schedule_prefetch_locked\<close> gives.)
  There is one consumer, so a \<open>Get\<close> is followed by its \<open>Resched\<close> before the next
  \<open>Get\<close>; callbacks may run in between. An event that cannot happen in a state
  (a task that was never submitted finishing, a blocked \<open>Get\<close>) yields \<open>None\<close>.
\<close>

datatype 'r event = Finish int "error + 'r" | Get int | Resched

record 'r system =
  prefetcher :: "'r FramePrefetcher"
  holding :: "'r fetched option"
  delivered :: "'r fetched list"
  raised :: "error list"
  callback_errors :: "error list"

definition boot :: "'r FramePrefetcher \<Rightarrow> 'r system" where
  "boot p = \<lparr>prefetcher = p, holding = None, delivered = [], raised = [],
             callback_errors = []\<rparr>"

fun step :: "'r event \<Rightarrow> 'r system \<Rightarrow> 'r system option" where
  "step (Finish idx outcome) s =
     (let p = prefetcher s
      in if idx \<in> set (submitted p)
         then
           (case store_frame_callback (worker_get_frame idx outcome)
                   (p\<lparr>submitted := remove1 idx (submitted p)\<rparr>) of
              (None, p') \<Rightarrow> Some (s\<lparr>prefetcher := p'\<rparr>)
            | (Some e, p') \<Rightarrow>
                Some (s\<lparr>prefetcher := p', callback_errors := callback_errors s @ [e]\<rparr>))
         else None)"
| "step (Get idx) s =
     (case holding s of
        Some d \<Rightarrow> None
      | None \<Rightarrow>
          (case get_frame_pop idx (prefetcher s) of
             Raised e \<Rightarrow> Some (s\<lparr>raised := raised s @ [e]\<rparr>)
           | Blocked \<Rightarrow> None
           | Returned (data, p') \<Rightarrow> Some (s\<lparr>prefetcher := p', holding := Some data\<rparr>)))"
| "step Resched s =
     (case holding s of
        None \<Rightarrow> None
      | Some data \<Rightarrow>
          Some (s\<lparr>prefetcher := schedule_prefetch (prefetcher s), holding := None,
                  delivered := delivered s @ [data]\<rparr>))"

fun run :: "'r event list \<Rightarrow> 'r system \<Rightarrow> 'r system option" where
  "run [] s = Some s"
| "run (e # es) s = (case step e s of None \<Rightarrow> None | Some s' \<Rightarrow> run es s')"

fun failure :: "'r event \<Rightarrow> bool" where
  "failure (Finish idx (Inl e)) = True"
| "failure ev = False"

section \<open>framework/process_frames.py\<close>

text \<open>
  The first two statements of \<open>process_frames\<close>: the pool size and the prefetcher
  built from it (the action is the constructor's default, \<open>"process"\<close>).
\<close>

definition process_frames_prefetcher :: "int list \<Rightarrow> error + 'r FramePrefetcher" where
  "process_frames_prefetcher indices =
     (let pool_size = min (int (length indices)) 32
      in FramePrefetcher_init indices pool_size pool_size ''process'')"

section \<open>framework/frames.py\<close>

subsection \<open>Metadata records and the files of a run\<close>

text \<open>
  A metadata record is the Python dictionary that \<open>json.load\<close> returns and
  \<open>json.dump\<close> writes: string keys in insertion order, with JSON values.
  \<open>AList.update\<close> is the dictionary assignment \<open>d[key] = value\<close> (the value of a
  present key is replaced in place, a new key goes to the end) and \<open>map_of\<close> the
  lookup.

  \<open>world\<close> is what the frames of a run share: the frame images under
  \<open>FRAMES_PATH\<close> and the metadata files under \<open>FRAMES_METADATA_PATH\<close>, both
  keyed by frame index, and the number of requests of each kind sent to the Groundlight
  service so far. Writing and reading the files is taken to succeed.
\<close>

datatype json = JNull | JBool bool | JInt int | JStr string

type_synonym metadata = "(string \<times> json) list"

type_synonym img = "nat list"

record world =
  frames :: "int \<rightharpoonup> img"
  frames_metadata :: "int \<rightharpoonup> metadata"
  ask_ml_calls :: nat
  get_image_query_calls :: nat

text \<open>
  The attributes of a \<open>Frame\<close> object (\<open>frame_path\<close> and \<open>metadata_path\<close> are
  functions of the index); \<open>image_cache\<close> is \<open>self._image\<close>. A
  \<open>ProcessedFrame\<close> declares \<open>image: np.ndarray\<close>, so building one from \<open>None\<close>
  fails validation.
\<close>

record Frame =
  frame_index :: int
  image_cache :: "img option"
  initial_metadata :: metadata
  metadata :: metadata

record ProcessedFrame =
  pf_index :: int
  pf_image :: img
  pf_metadata :: metadata

definition ProcessedFrame_new :: "int \<Rightarrow> img option \<Rightarrow> metadata \<Rightarrow> error + ProcessedFrame" where
  "ProcessedFrame_new idx im md =
     (case im of
        None \<Rightarrow> Inl ValidationError
      | Some a \<Rightarrow> Inr \<lparr>pf_index = idx, pf_image = a, pf_metadata = md\<rparr>)"

text \<open>\<open>d[key]\<close> raises \<open>KeyError\<close> on a missing key.\<close>

definition dict_get :: "metadata \<Rightarrow> string \<Rightarrow> error + json" where
  "dict_get d k = (case map_of d k of None \<Rightarrow> Inl (KeyError k) | Some v \<Rightarrow> Inr v)"

text \<open>
  The property \<open>image\<close>: \<open>cv2.imread\<close> is called as long as \<open>self._image\<close> is
  \<open>None\<close>, and itself returns \<open>None\<close> for a file it cannot read.
\<close>

definition get_image :: "Frame \<Rightarrow> world \<Rightarrow> img option \<times> Frame" where
  "get_image self w =
     (case image_cache self of
        None \<Rightarrow> (frames w (frame_index self), self\<lparr>image_cache := frames w (frame_index self)\<rparr>)
      | Some im \<Rightarrow> (Some im, self))"

subsection \<open>Saving and loading metadata\<close>

definition save_metadata :: "Frame \<Rightarrow> world \<Rightarrow> world" where
  "save_metadata self w =
     w\<lparr>frames_metadata := (frames_metadata w)(frame_index self \<mapsto> metadata self)\<rparr>"

text \<open>
  \<open>load_metadata\<close>: when the file exists, the loop over \<open>self.initial_metadata.items()\<close>
  adds each key that the loaded record lacks (\<open>add_missing\<close> is its body), and the
  result is stored in \<open>self.metadata\<close> and saved; otherwise the initial metadata is
  stored and saved. The method has no \<open>return\<close> statement: what it loads is
  \<open>self.metadata\<close> of the frame returned here.
\<close>

definition add_missing :: "string \<times> json \<Rightarrow> metadata \<Rightarrow> metadata" where
  "add_missing kv existing_metadata =
     (if map_of existing_metadata (fst kv) = None
      then AList.update (fst kv) (snd kv) existing_metadata
      else existing_metadata)"

definition load_metadata :: "Frame \<Rightarrow> world \<Rightarrow> Frame \<times> world" where
  "load_metadata self w =
     (case frames_metadata w (frame_index self) of
        Some existing_metadata \<Rightarrow>
          (let self' = self\<lparr>metadata :=
                         fold add_missing (initial_metadata self) existing_metadata\<rparr>
           in (self', save_metadata self' w))
      | None \<Rightarrow>
          (let self' = self\<lparr>metadata := initial_metadata self\<rparr>
           in (self', save_metadata self' w)))"

text \<open>
  \<open>Frame.__init__\<close>: the frame image must exist; \<open>initial_metadata or {}\<close> turns
  \<open>None\<close> into the empty dictionary; then the metadata is loaded. The Groundlight
  client is a parameter of the actions below.
\<close>

definition Frame_init :: "int \<Rightarrow> metadata option \<Rightarrow> world \<Rightarrow> (error + Frame) \<times> world" where
  "Frame_init idx initial w =
     (if frames w idx = None then (Inl (FileNotFoundError idx), w)
      else
        (case load_metadata
                \<lparr>frame_index = idx, image_cache = None,
                 initial_metadata = (case initial of None \<Rightarrow> [] | Some d \<Rightarrow> d),
                 metadata = []\<rparr> w of
           (self, w') \<Rightarrow> (Inr self, w')))"

section \<open>demo/robot_frames.py\<close>

text \<open>
  The Groundlight service, as the frame uses it. An image query has an id and a result
  with a label and a confidence. \<open>ask_ml\<close> submits an image and \<open>get_image_query\<close>
  reads a query back by its id; either may fail, and what the \<open>n\<close>-th request returns
  is up to the service, so both take the number of earlier requests of their kind.
  \<open>confidence_threshold\<close> is that of the detector \<open>robot_detector\<close>.
\<close>

datatype Label = YES | NO | UNCLEAR

record image_query =
  ident :: string
  label :: Label
  confidence :: real

record groundlight =
  ask_ml :: "nat \<Rightarrow> img option \<Rightarrow> error + image_query"
  get_image_query :: "nat \<Rightarrow> json \<Rightarrow> error + image_query"
  confidence_threshold :: real

text \<open>
  \<open>RobotFrame.__init__\<close> passes the dictionary \<open>robot_initial_metadata\<close> to
  \<open>Frame.__init__\<close>: no image query id and no answer yet.
\<close>

definition robot_initial_metadata :: metadata where
  "robot_initial_metadata = [(''iq_id'', JNull), (''is_upside_down'', JNull)]"

definition RobotFrame_init :: "int \<Rightarrow> world \<Rightarrow> (error + Frame) \<times> world" where
  "RobotFrame_init idx w = Frame_init idx (Some robot_initial_metadata) w"

text \<open>\<open>_update_metadata(iq)\<close>.\<close>

definition update_metadata ::
  "groundlight \<Rightarrow> image_query \<Rightarrow> Frame \<Rightarrow> world \<Rightarrow> Frame \<times> world" where
  "update_metadata gl iq self w =
     (let md = AList.update ''iq_id'' (JStr (ident iq)) (metadata self);
          md' = (if confidence_threshold gl \<le> confidence iq \<and> label iq \<noteq> UNCLEAR
                 then AList.update ''is_upside_down'' (JBool (label iq = YES)) md
                 else md);
          self' = self\<lparr>metadata := md'\<rparr>
      in (self', save_metadata self' w))"

text \<open>
  \<open>process_frame\<close>; \<open>make_result\<close> is its \<open>return\<close> statement, which reads the
  image.
\<close>

definition make_result :: "Frame \<Rightarrow> world \<Rightarrow> (error + ProcessedFrame) \<times> Frame \<times> world" where
  "make_result self w =
     (case get_image self w of
        (im, self') \<Rightarrow> (ProcessedFrame_new (frame_index self') im (metadata self'), self', w))"

definition process_frame ::
  "groundlight \<Rightarrow> Frame \<Rightarrow> world \<Rightarrow> (error + ProcessedFrame) \<times> Frame \<times> world" where
  "process_frame gl self w =
     (case dict_get (metadata self) ''iq_id'' of
        Inl e \<Rightarrow> (Inl e, self, w)
      | Inr tok \<Rightarrow>
          if tok = JNull then
            (case get_image self w of
               (im, self1) \<Rightarrow>
                 (let w1 = w\<lparr>ask_ml_calls := ask_ml_calls w + 1\<rparr>
                  in case ask_ml gl (ask_ml_calls w) im of
                       Inl e \<Rightarrow> (Inl e, self1, w1)
                     | Inr iq \<Rightarrow>
                         (case update_metadata gl iq self1 w1 of
                            (self2, w2) \<Rightarrow> make_result self2 w2)))
          else make_result self w)"

definition update_frame ::
  "groundlight \<Rightarrow> Frame \<Rightarrow> world \<Rightarrow> (error + unit) \<times> Frame \<times> world" where
  "update_frame gl self w =
     (case dict_get (metadata self) ''iq_id'' of
        Inl e \<Rightarrow> (Inl e, self, w)
      | Inr tok \<Rightarrow>
          if tok = JNull then (Inl (ValueError_no_iq_id (frame_index self)), self, w)
          else
            (case dict_get (metadata self) ''is_upside_down'' of
               Inl e \<Rightarrow> (Inl e, self, w)
             | Inr ans \<Rightarrow>
                 if ans = JNull then
                   (let w1 = w\<lparr>get_image_query_calls := get_image_query_calls w + 1\<rparr>
                    in case get_image_query gl (get_image_query_calls w) tok of
                         Inl e \<Rightarrow> (Inl e, self, w1)
                       | Inr iq \<Rightarrow>
                           (case update_metadata gl iq self w1 of
                              (self', w') \<Rightarrow> (Inr (), self', w')))
                 else (Inr (), self, w)))"

text \<open>
  An action on a fresh instance, as a prefetch task runs it
  (\<open>action_fn(frame_class(index))\<close>): the frame is built, the action called, and the
  instance dropped. \<open>act_fresh\<close> keeps the files and counters only, whatever the
  action returned or raised.
\<close>

definition process_fresh ::
  "groundlight \<Rightarrow> int \<Rightarrow> world \<Rightarrow> (error + ProcessedFrame) \<times> world" where
  "process_fresh gl idx w =
     (case RobotFrame_init idx w of
        (Inl e, w') \<Rightarrow> (Inl e, w')
      | (Inr frame, w') \<Rightarrow>
          (case process_frame gl frame w' of (res, frame', w'') \<Rightarrow> (res, w'')))"

definition update_fresh :: "groundlight \<Rightarrow> int \<Rightarrow> world \<Rightarrow> (error + unit) \<times> world" where
  "update_fresh gl idx w =
     (case RobotFrame_init idx w of
        (Inl e, w') \<Rightarrow> (Inl e, w')
      | (Inr frame, w') \<Rightarrow>
          (case update_frame gl frame w' of (res, frame', w'') \<Rightarrow> (res, w'')))"

definition act_fresh :: "groundlight \<Rightarrow> action \<times> int \<Rightarrow> world \<Rightarrow> world" where
  "act_fresh gl a w =
     (case fst a of
        Process \<Rightarrow> snd (process_fresh gl (snd a) w)
      | Update \<Rightarrow> snd (update_fresh gl (snd a) w))"

text \<open>The answer recorded for a frame: the value under \<open>"is_upside_down"\<close> on disk.\<close>

definition answer :: "world \<Rightarrow> int \<Rightarrow> json option" where
  "answer w idx =
     (case frames_metadata w idx of None \<Rightarrow> None | Some md \<Rightarrow> map_of md ''is_upside_down'')"

section \<open>Invariants and sample runs\<close>

text \<open>
  \<open>one_task_each\<close>: no index has two tasks with the executor, every such task is
  recorded in \<open>in_progress\<close>, and nothing in progress is in the buffer.
\<close>

definition one_task_each :: "'r FramePrefetcher \<Rightarrow> bool" where
  "one_task_each p \<longleftrightarrow>
     distinct (submitted p) \<and> set (submitted p) \<subseteq> in_progress p \<and>
     in_progress p \<inter> dom (buffer p) = {}"

text \<open>
  \<open>within_window\<close>: for a non-negative \<open>buffer_size\<close>, every index buffered or in
  progress lies in the current window.
\<close>

definition within_window :: "'r FramePrefetcher \<Rightarrow> bool" where
  "within_window p \<longleftrightarrow>
     one_task_each p \<and> 0 \<le> buffer_size p \<and>
     dom (buffer p) \<union> in_progress p \<subseteq> set (needed_indices p)"

text \<open>
  \<open>in_order\<close>: every buffer entry is stored under its own index, the entries
  returned so far carry the first indices of the sequence, and the cursor counts them
  (it is one ahead between the pop and the return).
\<close>

definition in_order :: "int list \<Rightarrow> 'r system \<Rightarrow> bool" where
  "in_order S s \<longleftrightarrow>
     indicies (prefetcher s) = S \<and>
     (\<forall>i d. buffer (prefetcher s) i = Some d \<longrightarrow> index d = i) \<and>
     map index (delivered s) = take (length (delivered s)) S \<and>
     (case holding s of
        None \<Rightarrow> current_index (prefetcher s) = length (delivered s)
      | Some d \<Rightarrow> current_index (prefetcher s) = length (delivered s) + 1 \<and>
          length (delivered s) < length S \<and> index d = S ! length (delivered s))"

text \<open>
  \<open>window_covered\<close>: as long as no task has failed, \<open>in_progress\<close> is exactly the
  set of tasks with the executor, and outside a \<open>get_frame\<close> call every index of the
  window is buffered or has its task under way.
\<close>

definition window_covered :: "'r system \<Rightarrow> bool" where
  "window_covered s \<longleftrightarrow>
     one_task_each (prefetcher s) \<and>
     in_progress (prefetcher s) = set (submitted (prefetcher s)) \<and>
     (holding s = None \<longrightarrow>
        set (needed_indices (prefetcher s))
          \<subseteq> dom (buffer (prefetcher s)) \<union> set (submitted (prefetcher s)))"

text \<open>
  \<open>starved idx\<close>: the consumer is between calls and expects \<open>idx\<close> next, which
  is not buffered and has no task with the executor, yet is recorded in
  \<open>in_progress\<close>.
\<close>

definition starved :: "int \<Rightarrow> 'r system \<Rightarrow> bool" where
  "starved idx s \<longleftrightarrow>
     holding s = None \<and>
     current_index (prefetcher s) < length (indicies (prefetcher s)) \<and>
     indicies (prefetcher s) ! current_index (prefetcher s) = idx \<and>
     buffer (prefetcher s) idx = None \<and>
     idx \<in> in_progress (prefetcher s) \<and>
     idx \<notin> set (submitted (prefetcher s))"

text \<open>
  The state a call is in when it has returned or is stuck.
\<close>

definition frozen :: "'a locked \<Rightarrow> 'a" where
  "frozen x = (case x of Completed a \<Rightarrow> a | Deadlock a \<Rightarrow> a)"

text \<open>
  A prefetcher over the frames 5, 6, 7 with a window of two, as the constructor leaves
  it, and two interleavings: one in which every task succeeds, one in which the task
  for frame 5 fails.
\<close>

definition demo_start :: "nat FramePrefetcher" where
  "demo_start = \<lparr>buffer_size = 2, current_index = 0, indicies = [5, 6, 7],
     buffer = Map.empty, action_fn = Process, in_progress = {5, 6}, max_workers = 2,
     submitted = [5, 6]\<rparr>"

definition demo_events :: "nat event list" where
  "demo_events = [Finish 6 (Inr 60), Finish 5 (Inr 50), Get 5, Resched, Get 6,
     Finish 7 (Inr 70), Resched]"

definition demo_failing :: "nat event list" where
  "demo_failing = [Finish 5 (Inl (FileNotFoundError 5)), Finish 6 (Inr 60), Get 6]"

text \<open>
  Two timings for the sample prefetcher: the task for frame 5, respectively frame 7,
  has finished with a result by the time its done-callback is attached.
\<close>

definition demo_fast :: "int \<Rightarrow> (error + nat) option" where
  "demo_fast i = (if i = 5 then Some (Inr 50) else None)"

definition demo_fast_later :: "int \<Rightarrow> (error + nat) option" where
  "demo_fast_later i = (if i = 7 then Some (Inr 70) else None)"

text \<open>
  What \<open>load_metadata\<close> leaves in \<open>self.metadata\<close>, given the initial metadata
  and the files, and what \<open>_update_metadata\<close> makes of a record.
\<close>

definition loaded :: "metadata \<Rightarrow> world \<Rightarrow> int \<Rightarrow> metadata" where
  "loaded initial w idx =
     (case frames_metadata w idx of
        None \<Rightarrow> initial
      | Some existing \<Rightarrow> fold add_missing initial existing)"

definition recorded :: "groundlight \<Rightarrow> image_query \<Rightarrow> metadata \<Rightarrow> metadata" where
  "recorded gl iq md =
     (if confidence_threshold gl \<le> confidence iq \<and> label iq \<noteq> UNCLEAR
      then AList.update ''is_upside_down'' (JBool (label iq = YES))
             (AList.update ''iq_id'' (JStr (ident iq)) md)
      else AList.update ''iq_id'' (JStr (ident iq)) md)"

text \<open>
  Where a changed answer comes from: the image query that this very call obtained,
  from \<open>ask_ml\<close> when processing, from \<open>get_image_query\<close> when updating a frame
  whose answer was still null.
\<close>

definition provenance ::
  "groundlight \<Rightarrow> world \<Rightarrow> action \<Rightarrow> int \<Rightarrow> json \<Rightarrow> image_query \<Rightarrow> bool" where
  "provenance gl w act i a iq \<longleftrightarrow>
     (act = Process \<and> ask_ml gl (ask_ml_calls w) (frames w i) = Inr iq) \<or>
     (act = Update \<and> a = JNull \<and>
      (\<exists>tok. get_image_query gl (get_image_query_calls w) tok = Inr iq))"

text \<open>
  A service that answers a confident NO to every image and an unclear result to every
  re-read; a run with one frame and no metadata yet (\<open>demo_world\<close>), with the
  initial metadata on disk (\<open>demo_pending\<close>), and after the frame was processed
  (\<open>demo_answered\<close>, the call having returned \<open>demo_result\<close>).
\<close>

definition demo_gl :: groundlight where
  "demo_gl =
     \<lparr>ask_ml = (\<lambda>n im. Inr \<lparr>ident = ''iq_1'', label = NO, confidence = 0.95\<rparr>),
      get_image_query = (\<lambda>n tok. Inr \<lparr>ident = ''iq_1'', label = UNCLEAR, confidence = 0.5\<rparr>),
      confidence_threshold = 0.9\<rparr>"

definition demo_world :: world where
  "demo_world = \<lparr>frames = [0 \<mapsto> [1, 2, 3]], frames_metadata = Map.empty,
                 ask_ml_calls = 0, get_image_query_calls = 0\<rparr>"

definition demo_pending :: world where
  "demo_pending = \<lparr>frames = [0 \<mapsto> [1, 2, 3]],
     frames_metadata = [0 \<mapsto> [(''iq_id'', JNull), (''is_upside_down'', JNull)]],
     ask_ml_calls = 0, get_image_query_calls = 0\<rparr>"

definition demo_answered :: world where
  "demo_answered = \<lparr>frames = [0 \<mapsto> [1, 2, 3]],
     frames_metadata = [0 \<mapsto> [(''iq_id'', JStr ''iq_1''), (''is_upside_down'', JBool False)]],
     ask_ml_calls = 1, get_image_query_calls = 0\<rparr>"

definition demo_result :: ProcessedFrame where
  "demo_result = \<lparr>pf_index = 0, pf_image = [1, 2, 3],
     pf_metadata = [(''iq_id'', JStr ''iq_1''), (''is_upside_down'', JBool False)]\<rparr>"

text \<open>
  A frame with two default keys over a stored record that has one of them, and an
  unclear image query arriving at a frame whose answer is recorded.
\<close>

definition demo_frame :: Frame where
  "demo_frame = \<lparr>frame_index = 3, image_cache = None,
     initial_metadata = [(''a'', JInt 99), (''b'', JInt 2)], metadata = []\<rparr>"

definition demo_disk :: world where
  "demo_disk = \<lparr>frames = [3 \<mapsto> [1, 2, 3]], frames_metadata = [3 \<mapsto> [(''a'', JInt 1)]],
     ask_ml_calls = 0, get_image_query_calls = 0\<rparr>"

definition demo_unclear :: image_query where
  "demo_unclear = \<lparr>ident = ''iq_2'', label = UNCLEAR, confidence = 0.99\<rparr>"

definition demo_self :: Frame where
  "demo_self = \<lparr>frame_index = 0, image_cache = None,
     initial_metadata = robot_initial_metadata,
     metadata = [(''iq_id'', JStr ''iq_1''), (''is_upside_down'', JBool True)]\<rparr>"

section \<open>Properties of the prefetcher\<close>

subsection \<open>What the scheduling step does\<close>

lemma fold_launch:
  "fold launch xs p = p\<lparr>in_progress := in_progress p \<union> set xs, submitted := submitted p @ xs\<rparr>"
  by (induction xs arbitrary: p) (simp_all add: launch_def insert_commute Un_commute insert_absorb)

lemma schedule_prefetch_eq:
  "schedule_prefetch p =
     p\<lparr>in_progress := in_progress p \<union> set (indices_to_fetch p),
       submitted := submitted p @ indices_to_fetch p\<rparr>"
  by (simp add: schedule_prefetch_def fold_launch)

lemma set_indices_to_fetch:
  "set (indices_to_fetch p) = set (needed_indices p) - dom (buffer p) - in_progress p"
  by (auto simp: indices_to_fetch_def)

lemma distinct_indices_to_fetch: "distinct (indices_to_fetch p)"
  by (simp add: indices_to_fetch_def)

lemma py_slice_nonneg:
  assumes "0 \<le> b"
  shows "py_slice xs (int c) (int c + b) = take (nat b) (drop c xs)"
proof -
  have hi: "slice_bound (length xs) (int c + b) = min (c + nat b) (length xs)"
    using assms by (simp add: slice_bound_def nat_add_distrib)
  have lo: "slice_bound (length xs) (int c) = min c (length xs)"
    by (simp add: slice_bound_def)
  show ?thesis
  proof (cases "c \<le> length xs")
    case True
    then show ?thesis by (simp add: py_slice_def hi lo min_def)
  next
    case False
    then show ?thesis by (simp add: py_slice_def hi lo min_def)
  qed
qed

lemma needed_nonneg:
  "0 \<le> buffer_size p \<Longrightarrow>
   needed_indices p = take (nat (buffer_size p)) (drop (current_index p) (indicies p))"
  by (simp add: needed_indices_def py_slice_nonneg)

lemma needed_indices_schedule [simp]:
  "needed_indices (schedule_prefetch p) = needed_indices p"
  by (simp add: schedule_prefetch_eq needed_indices_def)

subsection \<open>The steps of an interleaving\<close>

lemma callback_cases:
  assumes "store_frame_callback (worker_get_frame idx outcome) q = (err, p')"
  obtains (failed) e where "outcome = Inl e" "p' = q" "err = Some e"
  | (stored) r where "outcome = Inr r" "idx \<in> in_progress q" "err = None"
      "p' = q\<lparr>buffer := (buffer q)(idx \<mapsto> \<lparr>index = idx, result = r\<rparr>),
             in_progress := in_progress q - {idx}\<rparr>"
  | (missing) r where "outcome = Inr r" "idx \<notin> in_progress q"
      "p' = q\<lparr>buffer := (buffer q)(idx \<mapsto> \<lparr>index = idx, result = r\<rparr>)\<rparr>"
  using assms
  by (cases outcome)
    (auto simp: store_frame_callback_def worker_get_frame_def Let_def split: if_splits)

lemma pop_Returned:
  "get_frame_pop idx p = Returned (d, p') \<longleftrightarrow>
     current_index p < length (indicies p) \<and> idx = indicies p ! current_index p \<and>
     buffer p idx = Some d \<and>
     p' = p\<lparr>buffer := (buffer p)(idx := None), current_index := current_index p + 1\<rparr>"
  by (auto simp: get_frame_pop_def Let_def split: option.splits)

lemma init_fields:
  assumes "FramePrefetcher_init S bs nw act = Inr p"
  obtains p0 where "p = schedule_prefetch p0" "buffer_size p0 = bs" "current_index p0 = 0"
    "indicies p0 = S" "buffer p0 = Map.empty" "in_progress p0 = {}" "submitted p0 = []"
    "max_workers p0 = nw" "0 < nw" "act = ''process'' \<or> act = ''update''"
  using assms
  by (auto simp: FramePrefetcher_init_def select_action_def ThreadPoolExecutor_def
      split: sum.splits if_splits)

lemma init_error_kinds:
  "FramePrefetcher_init S bs nw act = Inl e \<longleftrightarrow>
     (act \<noteq> ''process'' \<and> act \<noteq> ''update'' \<and> e = ValueError_action act) \<or>
     ((act = ''process'' \<or> act = ''update'') \<and> nw < 1 \<and> e = ValueError_max_workers)"
  by (auto simp: FramePrefetcher_init_def select_action_def ThreadPoolExecutor_def
      split: sum.splits if_splits)

lemma init_fixed:
  assumes "FramePrefetcher_init S bs nw act = Inr p"
  shows "buffer_size p = bs \<and> indicies p = S \<and> max_workers p = nw"
proof -
  from assms obtain p0 where "p = schedule_prefetch p0" "buffer_size p0 = bs"
    "indicies p0 = S" "max_workers p0 = nw"
    by (rule init_fields)
  then show ?thesis by (simp add: schedule_prefetch_eq)
qed

lemma step_fixed:
  assumes "step e s = Some s'"
  shows "buffer_size (prefetcher s') = buffer_size (prefetcher s) \<and>
         indicies (prefetcher s') = indicies (prefetcher s)"
proof (cases e)
  case (Finish idx outcome)
  from assms Finish obtain err p' where
    cb: "store_frame_callback (worker_get_frame idx outcome)
          ((prefetcher s)\<lparr>submitted := remove1 idx (submitted (prefetcher s))\<rparr>) = (err, p')"
    and s': "prefetcher s' = p'"
    by (auto simp: Let_def split: if_splits prod.splits option.splits)
  from cb show ?thesis by (cases rule: callback_cases) (simp_all add: s')
next
  case (Get idx)
  with assms show ?thesis
    by (auto simp: pop_Returned split: option.splits outcome.splits)
next
  case Resched
  with assms show ?thesis
    by (auto simp: schedule_prefetch_eq split: option.splits)
qed

lemma run_fixed:
  "run evs s = Some s' \<Longrightarrow>
   buffer_size (prefetcher s') = buffer_size (prefetcher s) \<and>
   indicies (prefetcher s') = indicies (prefetcher s)"
  by (induction evs arbitrary: s) (auto split: option.splits dest: step_fixed)

lemma get_frame_buffered:
  assumes "current_index p < length (indicies p)"
    and "buffer p (indicies p ! current_index p) = Some d"
  shows "\<exists>p'. get_frame (indicies p ! current_index p) p = Returned (d, p')"
  using assms by (simp add: get_frame_def get_frame_pop_def)

lemma get_frame_not_buffered:
  assumes "current_index p < length (indicies p)"
    and "buffer p (indicies p ! current_index p) = None"
  shows "get_frame (indicies p ! current_index p) p = Blocked"
  using assms by (simp add: get_frame_def get_frame_pop_def)

lemma finish_stores:
  assumes "i \<in> set (submitted (prefetcher s))" "i \<in> in_progress (prefetcher s)"
  shows "step (Finish i (Inr r)) s =
     Some (s\<lparr>prefetcher := (prefetcher s)
        \<lparr>submitted := remove1 i (submitted (prefetcher s)),
         buffer := (buffer (prefetcher s))(i \<mapsto> \<lparr>index = i, result = r\<rparr>),
         in_progress := in_progress (prefetcher s) - {i}\<rparr>\<rparr>)"
  using assms by (simp add: store_frame_callback_def worker_get_frame_def Let_def)

subsection \<open>One task per index\<close>

lemma one_task_each_schedule: "one_task_each p \<Longrightarrow> one_task_each (schedule_prefetch p)"
  by (auto simp: one_task_each_def schedule_prefetch_eq set_indices_to_fetch
      distinct_indices_to_fetch)

lemma one_task_each_finish:
  assumes "one_task_each p" "idx \<in> set (submitted p)"
    "store_frame_callback (worker_get_frame idx outcome)
       (p\<lparr>submitted := remove1 idx (submitted p)\<rparr>) = (err, p')"
  shows "one_task_each p'"
proof (cases outcome)
  case (Inl e)
  with assms show ?thesis
    by (auto simp: one_task_each_def store_frame_callback_def worker_get_frame_def
        dest: notin_set_remove1)
next
  case (Inr r)
  from assms(1,2) have mem: "idx \<in> in_progress p" by (auto simp: one_task_each_def)
  with assms(3) Inr have p': "p' = p\<lparr>submitted := remove1 idx (submitted p),
      buffer := (buffer p)(idx \<mapsto> \<lparr>index = idx, result = r\<rparr>),
      in_progress := in_progress p - {idx}\<rparr>"
    by (auto simp: store_frame_callback_def worker_get_frame_def Let_def)
  from assms(1) have "distinct (submitted p)" "set (submitted p) \<subseteq> in_progress p"
    "in_progress p \<inter> dom (buffer p) = {}" by (auto simp: one_task_each_def)
  then show ?thesis unfolding p' one_task_each_def by auto
qed

lemma one_task_each_pop:
  "one_task_each p \<Longrightarrow> get_frame_pop idx p = Returned (d, p') \<Longrightarrow> one_task_each p'"
  by (auto simp: one_task_each_def get_frame_pop_def Let_def split: if_splits option.splits)

lemma one_task_each_step:
  "one_task_each (prefetcher s) \<Longrightarrow> step e s = Some s' \<Longrightarrow> one_task_each (prefetcher s')"
proof (cases e)
  case (Finish idx outcome)
  assume a: "one_task_each (prefetcher s)" "step e s = Some s'"
  show ?thesis using a Finish
    by (auto simp: Let_def split: if_splits prod.splits option.splits
        dest: one_task_each_finish)
next
  case (Get idx)
  assume a: "one_task_each (prefetcher s)" "step e s = Some s'"
  show ?thesis using a Get
    by (auto split: option.splits outcome.splits dest: one_task_each_pop)
next
  case Resched
  assume a: "one_task_each (prefetcher s)" "step e s = Some s'"
  show ?thesis using a Resched
    by (auto split: option.splits intro: one_task_each_schedule)
qed

lemma one_task_each_run:
  "one_task_each (prefetcher s) \<Longrightarrow> run evs s = Some s' \<Longrightarrow> one_task_each (prefetcher s')"
  by (induction evs arbitrary: s) (auto split: option.splits dest: one_task_each_step)

lemma one_task_each_init:
  "FramePrefetcher_init S bs nw act = Inr p \<Longrightarrow> one_task_each p"
proof -
  assume "FramePrefetcher_init S bs nw act = Inr p"
  then obtain p0 where p: "p = schedule_prefetch p0" and "submitted p0 = []"
    "in_progress p0 = {}"
    by (auto simp: FramePrefetcher_init_def split: sum.splits)
  then have "one_task_each p0" by (simp add: one_task_each_def)
  then show ?thesis unfolding p by (rule one_task_each_schedule)
qed

subsection \<open>The buffer stays inside the window\<close>

lemma within_window_schedule: "within_window p \<Longrightarrow> within_window (schedule_prefetch p)"
  unfolding within_window_def
  by (auto simp: one_task_each_schedule)
    (auto simp: schedule_prefetch_eq set_indices_to_fetch)

lemma within_window_finish:
  assumes "within_window p" "idx \<in> set (submitted p)"
    "store_frame_callback (worker_get_frame idx outcome)
       (p\<lparr>submitted := remove1 idx (submitted p)\<rparr>) = (err, p')"
  shows "within_window p'"
proof -
  have one: "one_task_each p'" using assms one_task_each_finish
    unfolding within_window_def by blast
  have mem: "idx \<in> in_progress p" using assms(1,2)
    by (auto simp: within_window_def one_task_each_def)
  from assms(3) show ?thesis
  proof (cases rule: callback_cases)
    case (failed e)
    with assms(1) one show ?thesis
      by (auto simp: within_window_def needed_indices_def)
  next
    case (stored r)
    with assms(1) one mem show ?thesis
      by (auto simp: within_window_def needed_indices_def)
  next
    case (missing r)
    with mem show ?thesis by simp
  qed
qed

lemma within_window_pop:
  assumes "within_window p" "get_frame_pop idx p = Returned (d, p')"
  shows "within_window p'"
proof -
  let ?S = "indicies p" and ?c = "current_index p" and ?n = "nat (buffer_size p)"
  from assms(2) have c: "?c < length ?S" and idx: "idx = ?S ! ?c"
    and b: "buffer p idx = Some d"
    and p': "p' = p\<lparr>buffer := (buffer p)(idx := None), current_index := ?c + 1\<rparr>"
    unfolding pop_Returned by blast+
  from assms(1) have one: "one_task_each p" and bs: "0 \<le> buffer_size p"
    and sub: "dom (buffer p) \<union> in_progress p \<subseteq> set (needed_indices p)"
    by (simp_all add: within_window_def)
  have one': "one_task_each p'" using one assms(2) by (rule one_task_each_pop)
  have nip: "idx \<notin> in_progress p" using one b by (auto simp: one_task_each_def)
  have old: "needed_indices p = take ?n (?S ! ?c # drop (Suc ?c) ?S)"
    using bs c by (simp add: needed_nonneg Cons_nth_drop_Suc)
  have new: "needed_indices p' = take ?n (drop (Suc ?c) ?S)"
    using bs by (simp add: needed_nonneg p')
  have "idx \<in> set (needed_indices p)" using sub b by auto
  then obtain m where n: "?n = Suc m" using old by (cases ?n) auto
  have "set (needed_indices p) \<subseteq> insert idx (set (take m (drop (Suc ?c) ?S)))"
    using old n idx by auto
  moreover have "set (take m (drop (Suc ?c) ?S)) \<subseteq> set (needed_indices p')"
    unfolding new n by (rule set_take_subset_set_take) simp
  ultimately have "dom (buffer p') \<union> in_progress p' \<subseteq> set (needed_indices p')"
    using sub nip by (auto simp: p')
  with one' bs show ?thesis by (simp add: within_window_def p')
qed

lemma within_window_step:
  assumes "within_window (prefetcher s)" "step e s = Some s'"
  shows "within_window (prefetcher s')"
proof (cases e)
  case (Finish idx outcome)
  with assms show ?thesis
    by (auto simp: Let_def split: if_splits prod.splits option.splits
        dest: within_window_finish)
next
  case (Get idx)
  with assms show ?thesis
    by (auto split: option.splits outcome.splits dest: within_window_pop)
next
  case Resched
  with assms show ?thesis
    by (auto split: option.splits intro: within_window_schedule)
qed

lemma within_window_run:
  "within_window (prefetcher s) \<Longrightarrow> run evs s = Some s' \<Longrightarrow> within_window (prefetcher s')"
  by (induction evs arbitrary: s) (auto split: option.splits dest: within_window_step)

lemma within_window_init:
  assumes "FramePrefetcher_init S bs nw act = Inr p" "0 \<le> bs"
  shows "within_window p"
proof -
  from assms(1) obtain p0 where p: "p = schedule_prefetch p0" and f: "buffer_size p0 = bs"
    "buffer p0 = Map.empty" "in_progress p0 = {}" "submitted p0 = []"
    by (rule init_fields)
  have "within_window p0" using f assms(2) by (simp add: within_window_def one_task_each_def)
  then show ?thesis unfolding p by (rule within_window_schedule)
qed

lemma within_window_card:
  assumes "within_window p"
  shows "int (card (dom (buffer p))) \<le> buffer_size p"
proof -
  from assms have bs: "0 \<le> buffer_size p"
    and sub: "dom (buffer p) \<subseteq> set (needed_indices p)"
    by (auto simp: within_window_def)
  have "card (dom (buffer p)) \<le> card (set (needed_indices p))"
    using sub by (simp add: card_mono)
  also have "\<dots> \<le> length (needed_indices p)" by (rule card_length)
  also have "\<dots> \<le> nat (buffer_size p)" using bs by (simp add: needed_nonneg)
  finally show ?thesis using bs by simp
qed

subsection \<open>Delivery in order\<close>

lemma in_order_step:
  assumes "in_order S s" "step e s = Some s'"
  shows "in_order S s'"
proof (cases e)
  case (Finish idx outcome)
  from assms(2) Finish obtain err p' where
    cb: "store_frame_callback (worker_get_frame idx outcome)
          ((prefetcher s)\<lparr>submitted := remove1 idx (submitted (prefetcher s))\<rparr>) = (err, p')"
    and s': "prefetcher s' = p'" "holding s' = holding s" "delivered s' = delivered s"
    by (auto simp: Let_def split: if_splits prod.splits option.splits)
  from cb show ?thesis
    by (cases rule: callback_cases) (use assms(1) s' in \<open>auto simp: in_order_def split: option.splits\<close>)
next
  case (Get idx)
  show ?thesis
  proof (cases "get_frame_pop idx (prefetcher s)")
    case (Raised x)
    with assms Get show ?thesis
      by (auto simp: in_order_def split: option.splits)
  next
    case Blocked
    with assms Get show ?thesis by (auto split: option.splits)
  next
    case (Returned x)
    obtain d p' where x: "x = (d, p')" by (cases x)
    from assms(2) Get Returned x have h: "holding s = None"
      and s': "s' = s\<lparr>prefetcher := p', holding := Some d\<rparr>"
      by (auto split: option.splits)
    from Returned x have pr: "get_frame_pop idx (prefetcher s) = Returned (d, p')" by simp
    from pr have c: "current_index (prefetcher s) < length (indicies (prefetcher s))"
      and i: "idx = indicies (prefetcher s) ! current_index (prefetcher s)"
      and b: "buffer (prefetcher s) idx = Some d"
      and p': "p' = (prefetcher s)\<lparr>buffer := (buffer (prefetcher s))(idx := None),
                 current_index := current_index (prefetcher s) + 1\<rparr>"
      unfolding pop_Returned by blast+
    from assms(1) h b have "index d = idx" "current_index (prefetcher s) = length (delivered s)"
      "indicies (prefetcher s) = S"
      by (auto simp: in_order_def)
    with assms(1) c i show ?thesis
      by (auto simp: in_order_def s' p')
  qed
next
  case Resched
  from assms(2) Resched obtain d where h: "holding s = Some d"
    and s': "s' = s\<lparr>prefetcher := schedule_prefetch (prefetcher s), holding := None,
                  delivered := delivered s @ [d]\<rparr>"
    by (auto split: option.splits)
  from assms(1) h have k: "length (delivered s) < length S"
    and d: "index d = S ! length (delivered s)"
    and m: "map index (delivered s) = take (length (delivered s)) S"
    by (auto simp: in_order_def)
  have "map index (delivered s @ [d]) = take (Suc (length (delivered s))) S"
    using k d m by (simp add: take_Suc_conv_app_nth)
  with assms(1) h show ?thesis
    by (auto simp: in_order_def s' schedule_prefetch_eq)
qed

lemma in_order_run:
  "in_order S s \<Longrightarrow> run evs s = Some s' \<Longrightarrow> in_order S s'"
  by (induction evs arbitrary: s) (auto split: option.splits dest: in_order_step)

lemma in_order_init:
  assumes "FramePrefetcher_init S bs nw act = Inr p"
  shows "in_order S (boot p)"
proof -
  from assms obtain p0 where "p = schedule_prefetch p0" "indicies p0 = S"
    "current_index p0 = 0" "buffer p0 = Map.empty"
    by (rule init_fields)
  then show ?thesis by (simp add: in_order_def boot_def schedule_prefetch_eq)
qed

lemma covered_schedule:
  assumes "in_progress p = set (submitted p)"
  shows "in_progress (schedule_prefetch p) = set (submitted (schedule_prefetch p))"
    and "set (needed_indices (schedule_prefetch p))
          \<subseteq> dom (buffer (schedule_prefetch p)) \<union> set (submitted (schedule_prefetch p))"
  using assms by (auto simp: schedule_prefetch_eq set_indices_to_fetch needed_indices_def)

lemma window_covered_step:
  assumes "window_covered s" "step e s = Some s'" "\<not> failure e"
  shows "window_covered s'"
proof (cases e)
  case (Finish idx outcome)
  from assms(3) Finish obtain r where r: "outcome = Inr r" by (cases outcome) auto
  from assms(2) Finish obtain err p' where mem: "idx \<in> set (submitted (prefetcher s))"
    and cb: "store_frame_callback (worker_get_frame idx outcome)
          ((prefetcher s)\<lparr>submitted := remove1 idx (submitted (prefetcher s))\<rparr>) = (err, p')"
    and s': "prefetcher s' = p'" "holding s' = holding s"
    by (auto simp: Let_def split: if_splits prod.splits option.splits)
  from assms(1) have one: "one_task_each (prefetcher s)"
    and eq: "in_progress (prefetcher s) = set (submitted (prefetcher s))"
    by (auto simp: window_covered_def)
  have one': "one_task_each p'" using one mem cb by (rule one_task_each_finish)
  from one have dist: "distinct (submitted (prefetcher s))" by (simp add: one_task_each_def)
  from cb show ?thesis
  proof (cases rule: callback_cases)
    case (failed e)
    with r show ?thesis by simp
  next
    case (stored r')
    with assms(1) one' s' dist show ?thesis
      by (auto simp: window_covered_def needed_indices_def)
  next
    case (missing r')
    with mem eq show ?thesis by simp
  qed
next
  case (Get idx)
  show ?thesis
  proof (cases "get_frame_pop idx (prefetcher s)")
    case (Raised x)
    with assms Get show ?thesis
      by (auto simp: window_covered_def split: option.splits)
  next
    case Blocked
    with assms Get show ?thesis by (auto split: option.splits)
  next
    case (Returned x)
    obtain d p' where x: "x = (d, p')" by (cases x)
    from assms(2) Get Returned x have s': "s' = s\<lparr>prefetcher := p', holding := Some d\<rparr>"
      by (auto split: option.splits)
    from Returned x have pr: "get_frame_pop idx (prefetcher s) = Returned (d, p')" by simp
    from pr have p': "p' = (prefetcher s)\<lparr>buffer := (buffer (prefetcher s))(idx := None),
                 current_index := current_index (prefetcher s) + 1\<rparr>"
      unfolding pop_Returned by blast
    have "one_task_each p'" using assms(1) Returned x
      by (auto simp: window_covered_def dest: one_task_each_pop)
    with assms(1) show ?thesis by (auto simp: window_covered_def s' p')
  qed
next
  case Resched
  from assms(2) Resched obtain d where
    s': "s' = s\<lparr>prefetcher := schedule_prefetch (prefetcher s), holding := None,
                  delivered := delivered s @ [d]\<rparr>"
    by (auto split: option.splits)
  from assms(1) have "one_task_each (prefetcher s)"
    "in_progress (prefetcher s) = set (submitted (prefetcher s))"
    by (auto simp: window_covered_def)
  then show ?thesis
    using covered_schedule [of "prefetcher s"] one_task_each_schedule [of "prefetcher s"]
    by (simp add: window_covered_def s')
qed

lemma window_covered_run:
  "window_covered s \<Longrightarrow> run evs s = Some s' \<Longrightarrow> \<forall>e\<in>set evs. \<not> failure e \<Longrightarrow>
   window_covered s'"
  by (induction evs arbitrary: s) (auto split: option.splits dest: window_covered_step)

lemma window_covered_init:
  assumes "FramePrefetcher_init S bs nw act = Inr p"
  shows "window_covered (boot p)"
proof -
  from assms obtain p0 where p: "p = schedule_prefetch p0" and f: "in_progress p0 = {}"
    "submitted p0 = []" "buffer p0 = Map.empty"
    by (rule init_fields)
  have "one_task_each p0" using f by (simp add: one_task_each_def)
  then have "one_task_each p" unfolding p by (rule one_task_each_schedule)
  moreover have "in_progress p0 = set (submitted p0)" using f by simp
  ultimately show ?thesis
    using covered_schedule [of p0] by (simp add: window_covered_def boot_def p)
qed

text \<open>
  What holds of the order: in every state of every interleaving, the entries returned
  so far carry the first indices of the sequence, in order; a \<open>get_frame\<close> call
  that returns is a \<open>Get\<close> followed by a \<open>Resched\<close>; and between calls, as
  long as no task has failed, the next frame is buffered or its task is with the
  executor and its completion makes the call return it.
\<close>

lemma delivered_in_order:
  assumes "FramePrefetcher_init S bs nw act = Inr p0"
    and "run evs (boot p0) = Some s"
  shows "map index (delivered s) = take (length (delivered s)) S"
proof -
  have "in_order S s"
    using in_order_init [OF assms(1)] assms(2) by (rule in_order_run)
  then show ?thesis by (simp add: in_order_def)
qed

lemma get_frame_two_steps:
  "run [Get idx, Resched] s = Some s' \<longleftrightarrow>
     holding s = None \<and>
     (\<exists>d p'. get_frame idx (prefetcher s) = Returned (d, p') \<and>
        s' = s\<lparr>prefetcher := p', holding := None, delivered := delivered s @ [d]\<rparr>)"
proof (cases "holding s")
  case (Some d)
  then show ?thesis by simp
next
  case None
  show ?thesis
  proof (cases "get_frame_pop idx (prefetcher s)")
    case (Raised e)
    with None show ?thesis by (simp add: get_frame_def)
  next
    case Blocked
    with None show ?thesis by (simp add: get_frame_def)
  next
    case (Returned x)
    obtain d p1 where "x = (d, p1)" by (cases x)
    with None Returned show ?thesis by (auto simp: get_frame_def)
  qed
qed

lemma next_frame_arrives:
  assumes init: "FramePrefetcher_init S bs nw act = Inr p0"
    and bs: "1 \<le> bs"
    and run: "run evs (boot p0) = Some s"
    and ok: "\<forall>e\<in>set evs. \<not> failure e"
    and h: "holding s = None"
    and k: "length (delivered s) < length S"
  shows "(\<exists>d p'. get_frame (S ! length (delivered s)) (prefetcher s) = Returned (d, p') \<and>
           index d = S ! length (delivered s)) \<or>
       (get_frame (S ! length (delivered s)) (prefetcher s) = Blocked \<and>
        S ! length (delivered s) \<in> set (submitted (prefetcher s)) \<and>
        (\<forall>r. \<exists>s' d p'. step (Finish (S ! length (delivered s)) (Inr r)) s = Some s' \<and>
            holding s' = None \<and> delivered s' = delivered s \<and>
            get_frame (S ! length (delivered s)) (prefetcher s') = Returned (d, p') \<and>
            index d = S ! length (delivered s)))"
proof -
  let ?p = "prefetcher s" and ?k = "length (delivered s)"
  have io: "in_order S s"
    using in_order_init [OF init] run by (rule in_order_run)
  have wc: "window_covered s"
    using window_covered_init [OF init] run ok by (rule window_covered_run)
  have fixed: "buffer_size ?p = bs" "indicies ?p = S"
    using run_fixed [OF run] init_fixed [OF init] by (simp_all add: boot_def)
  show ?thesis
  proof -
    let ?i = "S ! ?k"
    have cur: "current_index ?p = ?k" using io h by (simp add: in_order_def)
    have keyed: "\<And>d. buffer ?p ?i = Some d \<Longrightarrow> index d = ?i"
      using io by (simp add: in_order_def)
    obtain m where m: "nat bs = Suc m" using bs by (cases "nat bs") auto
    have "needed_indices ?p = take (nat bs) (drop ?k S)"
      using bs fixed cur needed_nonneg [of ?p] by simp
    also have "\<dots> = ?i # take m (drop (Suc ?k) S)"
      using k m by (simp add: Cons_nth_drop_Suc [symmetric])
    finally have "?i \<in> set (needed_indices ?p)" by simp
    then have cov: "?i \<in> dom (buffer ?p) \<union> set (submitted ?p)"
      using wc h by (auto simp: window_covered_def)
    have inp: "in_progress ?p = set (submitted ?p)"
      using wc by (simp add: window_covered_def)
    show ?thesis
    proof (cases "buffer ?p ?i")
      case (Some d)
      then have "\<exists>p'. get_frame ?i ?p = Returned (d, p')"
        using get_frame_buffered [of ?p d] k cur fixed by simp
      with keyed [OF Some] show ?thesis by blast
    next
      case None
      then have blocked: "get_frame ?i ?p = Blocked"
        using get_frame_not_buffered [of ?p] k cur fixed by simp
      from None cov have sub: "?i \<in> set (submitted ?p)" by auto
      have "\<exists>s' d p'. step (Finish ?i (Inr r)) s = Some s' \<and>
            holding s' = None \<and> delivered s' = delivered s \<and>
            get_frame ?i (prefetcher s') = Returned (d, p') \<and> index d = ?i" for r
      proof -
        let ?q = "?p\<lparr>submitted := remove1 ?i (submitted ?p),
           buffer := (buffer ?p)(?i \<mapsto> \<lparr>index = ?i, result = r\<rparr>),
           in_progress := in_progress ?p - {?i}\<rparr>"
        have st: "step (Finish ?i (Inr r)) s = Some (s\<lparr>prefetcher := ?q\<rparr>)"
          using sub inp by (intro finish_stores) simp_all
        have "\<exists>p'. get_frame (indicies ?q ! current_index ?q) ?q
                = Returned (\<lparr>index = ?i, result = r\<rparr>, p')"
          by (rule get_frame_buffered) (use k cur fixed in simp_all)
        then have "\<exists>p'. get_frame ?i ?q = Returned (\<lparr>index = ?i, result = r\<rparr>, p')"
          using cur fixed by simp
        with st h show ?thesis by auto
      qed
      with blocked sub show ?thesis by blast
    qed
  qed
qed

subsection \<open>A failed task\<close>

text \<open>
  Once the task for the index the consumer expects next has failed, every later state
  is starved on that index: nothing more is delivered, the scheduling step does not
  launch the index again, and \<open>get_frame\<close> for it waits.
\<close>

lemma starved_step:
  assumes "starved idx s" "step e s = Some s'"
  shows "starved idx s' \<and> delivered s' = delivered s"
proof (cases e)
  case (Finish j outcome)
  from assms(2) Finish obtain err p' where mem: "j \<in> set (submitted (prefetcher s))"
    and cb: "store_frame_callback (worker_get_frame j outcome)
          ((prefetcher s)\<lparr>submitted := remove1 j (submitted (prefetcher s))\<rparr>) = (err, p')"
    and s': "prefetcher s' = p'" "holding s' = holding s" "delivered s' = delivered s"
    by (auto simp: Let_def split: if_splits prod.splits option.splits)
  from assms(1) mem have ne: "j \<noteq> idx" by (auto simp: starved_def)
  from assms(1) have nin: "idx \<notin> set (remove1 j (submitted (prefetcher s)))"
    by (auto simp: starved_def dest: notin_set_remove1)
  from cb show ?thesis
    by (cases rule: callback_cases) (use assms(1) s' ne nin in \<open>auto simp: starved_def\<close>)
next
  case (Get j)
  show ?thesis
  proof (cases "get_frame_pop j (prefetcher s)")
    case (Raised x)
    with assms Get show ?thesis by (auto simp: starved_def split: option.splits)
  next
    case Blocked
    with assms Get show ?thesis by (auto split: option.splits)
  next
    case (Returned x)
    obtain d p' where "x = (d, p')" by (cases x)
    with Returned have "get_frame_pop j (prefetcher s) = Returned (d, p')" by simp
    then have "buffer (prefetcher s) (indicies (prefetcher s) ! current_index (prefetcher s))
        = Some d"
      unfolding pop_Returned by blast
    with assms(1) show ?thesis by (simp add: starved_def)
  qed
next
  case Resched
  with assms show ?thesis by (auto simp: starved_def split: option.splits)
qed

lemma starved_run:
  "starved idx s \<Longrightarrow> run evs s = Some s' \<Longrightarrow> starved idx s' \<and> delivered s' = delivered s"
proof (induction evs arbitrary: s)
  case Nil
  then show ?case by simp
next
  case (Cons e evs)
  from Cons.prems(2) obtain s1 where 1: "step e s = Some s1" and 2: "run evs s1 = Some s'"
    by (auto split: option.splits)
  from starved_step [OF Cons.prems(1) 1] Cons.IH [OF _ 2] show ?case by simp
qed

lemma starved_blocked:
  assumes "starved idx s"
  shows "get_frame idx (prefetcher s) = Blocked"
    and "idx \<notin> set (indices_to_fetch (prefetcher s))"
  using assms by (auto simp: starved_def get_frame_def get_frame_pop_def indices_to_fetch_def)

lemma failed_task_starves_consumer:
  assumes "one_task_each (prefetcher s)" "holding s = None"
    and "current_index (prefetcher s) < length (indicies (prefetcher s))"
    and "idx = indicies (prefetcher s) ! current_index (prefetcher s)"
    and "idx \<in> set (submitted (prefetcher s))"
    and "run (Finish idx (Inl e) # evs) s = Some s'"
  shows "delivered s' = delivered s \<and> idx \<in> in_progress (prefetcher s') \<and>
         get_frame idx (prefetcher s') = Blocked \<and>
         idx \<notin> set (indices_to_fetch (prefetcher s'))"
proof -
  let ?s1 = "s\<lparr>prefetcher := (prefetcher s)\<lparr>submitted := remove1 idx (submitted (prefetcher s))\<rparr>,
                callback_errors := callback_errors s @ [e]\<rparr>"
  have st: "step (Finish idx (Inl e)) s = Some ?s1"
    using assms(5) by (simp add: store_frame_callback_def worker_get_frame_def Let_def)
  from assms(1,5) have "idx \<in> in_progress (prefetcher s)" "buffer (prefetcher s) idx = None"
    "distinct (submitted (prefetcher s))"
    by (auto simp: one_task_each_def)
  then have "starved idx ?s1"
    using assms(2,3,4) by (simp add: starved_def)
  moreover from assms(6) st have "run evs ?s1 = Some s'" by simp
  ultimately have "starved idx s' \<and> delivered s' = delivered ?s1" by (rule starved_run)
  then show ?thesis
    using starved_blocked [of idx s'] by (simp add: starved_def)
qed

subsection \<open>Callbacks attached to finished futures\<close>

text \<open>
  With every future unfinished when its callback is attached, the calls are the ones
  used in the interleavings. The scheduling call is stuck exactly when one of the
  tasks it submits has finished with a result by the time its callback is attached.
  Returned or stuck, it leaves one task per index and everything inside the window.
\<close>

lemma schedule_loop_pending:
  "schedule_loop (\<lambda>i. None) xs p = Completed (fold launch xs p)"
  by (induction xs arbitrary: p) (simp_all add: add_done_callback_def)

lemma schedule_prefetch_locked_pending:
  "schedule_prefetch_locked (\<lambda>i. None) p = Completed (schedule_prefetch p)"
  by (simp add: schedule_prefetch_locked_def schedule_prefetch_def schedule_loop_pending)

lemma FramePrefetcher_init_locked_pending:
  "FramePrefetcher_init_locked (\<lambda>i. None) S bs nw act = Completed (FramePrefetcher_init S bs nw act)"
  by (simp add: FramePrefetcher_init_locked_def FramePrefetcher_init_def
      schedule_prefetch_locked_pending split: sum.splits)

lemma get_frame_locked_pending:
  "get_frame_locked (\<lambda>i. None) idx p = Completed (get_frame idx p)"
  by (simp add: get_frame_locked_def get_frame_def schedule_prefetch_locked_pending
      split: outcome.splits)

lemma add_done_callback_cases:
  obtains (pending) "finished = None" "add_done_callback idx finished p = Completed p"
  | (failed) e where "finished = Some (Inl e)"
      "add_done_callback idx finished p = Completed (p\<lparr>submitted := remove1 idx (submitted p)\<rparr>)"
  | (stored) r where "finished = Some (Inr r)"
      "add_done_callback idx finished p = Deadlock (p\<lparr>submitted := remove1 idx (submitted p)\<rparr>)"
proof (cases finished)
  case None
  then show ?thesis using pending by (simp add: add_done_callback_def)
next
  case (Some outcome)
  then show ?thesis
    using failed stored
    by (cases outcome) (simp_all add: add_done_callback_def worker_get_frame_def)
qed

lemma schedule_loop_deadlock_iff:
  "(\<exists>p'. schedule_loop finished xs p = Deadlock p') \<longleftrightarrow>
     (\<exists>i\<in>set xs. \<exists>r. finished i = Some (Inr r))"
proof (induction xs arbitrary: p)
  case Nil
  show ?case by simp
next
  case (Cons idx rest)
  show ?case
  proof (cases rule: add_done_callback_cases [of "finished idx" idx "launch idx p"])
    case pending
    then show ?thesis using Cons by simp
  next
    case (failed e)
    then show ?thesis using Cons by simp
  next
    case (stored r)
    then show ?thesis by auto
  qed
qed

lemma schedule_prefetch_locked_deadlock_iff:
  "(\<exists>p'. schedule_prefetch_locked finished p = Deadlock p') \<longleftrightarrow>
     (\<exists>i\<in>set (indices_to_fetch p). \<exists>r. finished i = Some (Inr r))"
  unfolding schedule_prefetch_locked_def by (rule schedule_loop_deadlock_iff)

lemma schedule_loop_fields:
  "buffer (frozen (schedule_loop finished xs p)) = buffer p \<and>
   buffer_size (frozen (schedule_loop finished xs p)) = buffer_size p \<and>
   current_index (frozen (schedule_loop finished xs p)) = current_index p \<and>
   indicies (frozen (schedule_loop finished xs p)) = indicies p \<and>
   in_progress p \<subseteq> in_progress (frozen (schedule_loop finished xs p)) \<and>
   in_progress (frozen (schedule_loop finished xs p)) \<subseteq> in_progress p \<union> set xs"
proof (induction xs arbitrary: p)
  case Nil
  show ?case by (simp add: frozen_def)
next
  case (Cons idx rest)
  show ?case
  proof (cases rule: add_done_callback_cases [of "finished idx" idx "launch idx p"])
    case pending
    with Cons [of "launch idx p"] show ?thesis by (auto simp: launch_def)
  next
    case (failed e)
    with Cons [of "(launch idx p)\<lparr>submitted := remove1 idx (submitted (launch idx p))\<rparr>"]
    show ?thesis by (auto simp: launch_def)
  next
    case (stored r)
    then show ?thesis by (auto simp: launch_def frozen_def)
  qed
qed

lemma one_task_each_launch:
  assumes "one_task_each p" "idx \<notin> in_progress p" "buffer p idx = None"
  shows "one_task_each (launch idx p)"
    and "one_task_each ((launch idx p)\<lparr>submitted := remove1 idx (submitted (launch idx p))\<rparr>)"
proof -
  from assms have "idx \<notin> set (submitted p)" by (auto simp: one_task_each_def)
  then have rm: "remove1 idx (submitted p @ [idx]) = submitted p"
    by (simp add: remove1_append)
  show "one_task_each (launch idx p)"
    using assms by (auto simp: one_task_each_def launch_def)
  show "one_task_each ((launch idx p)\<lparr>submitted := remove1 idx (submitted (launch idx p))\<rparr>)"
    using assms by (auto simp: one_task_each_def launch_def rm)
qed

lemma one_task_each_schedule_loop:
  assumes "one_task_each p" "distinct xs"
    and "\<forall>i\<in>set xs. i \<notin> in_progress p \<and> buffer p i = None"
  shows "one_task_each (frozen (schedule_loop finished xs p))"
  using assms
proof (induction xs arbitrary: p)
  case Nil
  then show ?case by (simp add: frozen_def)
next
  case (Cons idx rest)
  from Cons.prems have fresh: "idx \<notin> in_progress p" "buffer p idx = None"
    and rest: "distinct rest" "idx \<notin> set rest"
    "\<forall>i\<in>set rest. i \<notin> in_progress p \<and> buffer p i = None"
    by auto
  note one = one_task_each_launch [OF Cons.prems(1) fresh]
  have next_ok: "\<forall>i\<in>set rest. i \<notin> in_progress q \<and> buffer q i = None"
    if "in_progress q = insert idx (in_progress p)" "buffer q = buffer p" for q :: "'a FramePrefetcher"
    using that rest by auto
  show ?case
  proof (cases rule: add_done_callback_cases [of "finished idx" idx "launch idx p"])
    case pending
    have "one_task_each (frozen (schedule_loop finished rest (launch idx p)))"
      by (rule Cons.IH [OF one(1) rest(1)]) (rule next_ok, simp_all add: launch_def)
    with pending show ?thesis by simp
  next
    case (failed e)
    have "one_task_each (frozen (schedule_loop finished rest
        ((launch idx p)\<lparr>submitted := remove1 idx (submitted (launch idx p))\<rparr>)))"
      by (rule Cons.IH [OF one(2) rest(1)]) (rule next_ok, simp_all add: launch_def)
    with failed show ?thesis by simp
  next
    case (stored r)
    with one(2) show ?thesis by (simp add: frozen_def)
  qed
qed

lemma one_task_each_schedule_locked:
  assumes "one_task_each p"
  shows "one_task_each (frozen (schedule_prefetch_locked finished p))"
  unfolding schedule_prefetch_locked_def
  by (rule one_task_each_schedule_loop [OF assms])
    (auto simp: indices_to_fetch_def)

lemma within_window_schedule_locked:
  assumes "within_window p"
  shows "within_window (frozen (schedule_prefetch_locked finished p))"
proof -
  let ?q = "frozen (schedule_prefetch_locked finished p)"
  from assms have one: "one_task_each p" and bs: "0 \<le> buffer_size p"
    and sub: "dom (buffer p) \<union> in_progress p \<subseteq> set (needed_indices p)"
    by (simp_all add: within_window_def)
  note f = schedule_loop_fields [of finished "indices_to_fetch p" p,
      folded schedule_prefetch_locked_def]
  have "needed_indices ?q = needed_indices p" using f by (simp add: needed_indices_def)
  moreover have "in_progress ?q \<subseteq> in_progress p \<union> set (needed_indices p)"
    using f by (auto simp: set_indices_to_fetch)
  ultimately show ?thesis
    using one_task_each_schedule_locked [OF one, of finished] bs sub f
    by (auto simp: within_window_def)
qed

subsection \<open>The sample prefetcher\<close>

lemmas eval_defs = FramePrefetcher_init_def select_action_def ThreadPoolExecutor_def
  schedule_prefetch_def indices_to_fetch_def needed_indices_def py_slice_def slice_bound_def
  launch_def boot_def store_frame_callback_def worker_get_frame_def get_frame_pop_def
  get_frame_def Let_def

lemma demo_init: "FramePrefetcher_init [5, 6, 7] 2 2 ''process'' = Inr demo_start"
  by (auto simp: eval_defs demo_start_def)

lemmas locked_defs = FramePrefetcher_init_locked_def get_frame_locked_def
  schedule_prefetch_locked_def add_done_callback_def frozen_def

section \<open>The claims about the prefetcher\<close>

text \<open>
  Claim C1, at a failing input. The prefetcher is built over the frames 5, 6, 7 with a
  window of two, and the task for frame 5 has finished with a result when
  \<open>_schedule_prefetch\<close> attaches its done-callback: the callback runs in the
  constructor's thread, which holds the lock, so the constructor never returns and
  frame 5 is never stored. The same inside \<open>get_frame\<close>: the constructor returns,
  frames 5 and 6 are stored, \<open>get_frame(5)\<close> pops frame 5, and the task it then
  submits for frame 7 has finished when its callback is attached, so the call never
  returns the frame it popped.
\<close>

theorem early_completion_deadlocks:
  "map_locked (map_sum id (\<lambda>p. (in_progress p, submitted p, buffer p 5)))
     (FramePrefetcher_init_locked demo_fast [5, 6, 7] 2 2 ''process'')
     = Deadlock (Inr ({5}, [], None)) \<and>
   FramePrefetcher_init [5, 6, 7] 2 2 ''process'' = Inr demo_start \<and>
   map_option (\<lambda>s. map_locked (map_outcome (index \<circ> fst))
        (get_frame_locked demo_fast_later 5 (prefetcher s)))
     (run [Finish 6 (Inr 60), Finish 5 (Inr 50)] (boot demo_start))
     = Some (Deadlock (Returned 5))"
  using demo_init
  by (simp add: locked_defs eval_defs demo_start_def demo_fast_def demo_fast_later_def)

text \<open>
  Claim C2. In every state a prefetcher reaches, under any interleaving (failing tasks
  included), the tasks with the executor are for pairwise different indices, none of
  them is for a buffered index, and each is recorded in \<open>in_progress\<close>, which is
  disjoint from the buffer. A scheduling step submits exactly the indices of the
  window that are neither buffered nor in progress, each once, so it never launches
  the action for an index that is buffered or under way.
\<close>

theorem no_duplicate_work:
  assumes "FramePrefetcher_init S bs nw act = Inr p0"
    and "run evs (boot p0) = Some s"
  shows "distinct (submitted (prefetcher s)) \<and>
         set (submitted (prefetcher s)) \<inter> dom (buffer (prefetcher s)) = {} \<and>
         set (submitted (prefetcher s)) \<subseteq> in_progress (prefetcher s) \<and>
         in_progress (prefetcher s) \<inter> dom (buffer (prefetcher s)) = {} \<and>
         submitted (schedule_prefetch (prefetcher s))
           = submitted (prefetcher s) @ indices_to_fetch (prefetcher s) \<and>
         distinct (indices_to_fetch (prefetcher s)) \<and>
         set (indices_to_fetch (prefetcher s))
           = set (needed_indices (prefetcher s)) - dom (buffer (prefetcher s))
               - in_progress (prefetcher s) \<and>
         distinct (submitted (schedule_prefetch (prefetcher s)))"
proof -
  have "one_task_each (prefetcher (boot p0))"
    using assms(1) by (simp add: boot_def one_task_each_init)
  then have one: "one_task_each (prefetcher s)"
    using assms(2) by (rule one_task_each_run)
  then have "one_task_each (schedule_prefetch (prefetcher s))"
    by (rule one_task_each_schedule)
  with one show ?thesis
    unfolding one_task_each_def
    by (simp add: schedule_prefetch_eq set_indices_to_fetch distinct_indices_to_fetch)
      blast
qed

theorem no_duplicate_work_witness:
  "FramePrefetcher_init [5, 6, 7] 2 2 ''process'' = Inr demo_start \<and>
   run demo_failing (boot demo_start) \<noteq> None \<and>
   map_option (\<lambda>s. (submitted (prefetcher s), 5 \<in> in_progress (prefetcher s),
       buffer (prefetcher s) 7, indices_to_fetch (prefetcher s)))
     (run demo_failing (boot demo_start)) = Some ([], True, None, [])"
proof -
  obtain s where r: "run demo_failing (boot demo_start) = Some s"
    by (simp add: eval_defs demo_start_def demo_failing_def)
  have "distinct (submitted (prefetcher s))"
    using no_duplicate_work [OF demo_init r] by blast
  moreover have "submitted (prefetcher s) = [] \<and> 5 \<in> in_progress (prefetcher s) \<and>
      buffer (prefetcher s) 7 = None \<and> indices_to_fetch (prefetcher s) = []"
    using r by (auto simp: eval_defs demo_start_def demo_failing_def)
  ultimately show ?thesis using demo_init r by simp
qed

text \<open>
  Claim C3, at a failing input. The task for frame 5, the next frame the consumer
  expects, raises (its image is missing); the task for frame 6 succeeds. Afterwards 5 is
  still in \<open>in_progress\<close> although no task for it is left, nothing is buffered for
  it, the scheduling step has nothing to launch, \<open>get_frame(5)\<close> waits, and the
  consumer has been handed no exception: the error was raised inside the callback
  only.
\<close>

theorem worker_failure_blocks_consumer:
  "FramePrefetcher_init [5, 6, 7] 2 2 ''process'' = Inr demo_start \<and>
   map_option
     (\<lambda>s. (5 \<in> in_progress (prefetcher s), 5 \<in> set (submitted (prefetcher s)),
           buffer (prefetcher s) 5, indices_to_fetch (prefetcher s),
           map_outcome (index \<circ> fst) (get_frame 5 (prefetcher s)),
           raised s, callback_errors s, delivered s))
     (run [Finish 5 (Inl (FileNotFoundError 5)), Finish 6 (Inr 60)] (boot demo_start))
   = Some (True, False, None, [], Blocked, [], [FileNotFoundError 5], [])"
  using demo_init by (simp add: eval_defs demo_start_def)

text \<open>
  Claim C4, as the code has it. The constructor accepts an empty index sequence and a
  \<open>buffer_size\<close> of zero.
\<close>

theorem init_accepts_empty_and_zero:
  "\<not> isl (FramePrefetcher_init [] 8 8 ''process'' :: error + nat FramePrefetcher) \<and>
   \<not> isl (FramePrefetcher_init [5, 6, 7] 0 8 ''process'' :: error + nat FramePrefetcher)"
  by (simp add: FramePrefetcher_init_def select_action_def ThreadPoolExecutor_def)

text \<open>
  Claim C4, amended. Construction fails exactly when the action name is neither
  \<open>"process"\<close> nor \<open>"update"\<close>, or \<open>num_workers\<close> is smaller than 1 (the
  thread pool rejects it).
\<close>

theorem init_fails_iff:
  "isl (FramePrefetcher_init S bs nw act :: error + 'r FramePrefetcher) \<longleftrightarrow>
     (act \<noteq> ''process'' \<and> act \<noteq> ''update'') \<or> nw < 1"
  by (simp add: FramePrefetcher_init_def select_action_def ThreadPoolExecutor_def)

theorem init_fails_iff_witness:
  "isl (FramePrefetcher_init [5, 6, 7] 2 2 ''fetch'' :: error + nat FramePrefetcher) \<and>
   isl (FramePrefetcher_init [5, 6, 7] 2 0 ''update'' :: error + nat FramePrefetcher) \<and>
   \<not> isl (FramePrefetcher_init [5, 6, 7] 2 2 ''process'' :: error + nat FramePrefetcher)"
  using init_fails_iff [of "[5, 6, 7]" 2 2 "''fetch''", where ?'r = nat]
    init_fails_iff [of "[5, 6, 7]" 2 0 "''update''", where ?'r = nat]
    init_fails_iff [of "[5, 6, 7]" 2 2 "''process''", where ?'r = nat]
  by simp

text \<open>
  Claim C5. For a non-negative \<open>buffer_size\<close>, in every state a prefetcher reaches
  under any interleaving, the buffer holds at most \<open>buffer_size\<close> entries, and
  every one of them is for an index of the current window
  \<open>indicies[current_index : current_index + buffer_size]\<close>.
\<close>

theorem bounded_look_ahead:
  assumes "FramePrefetcher_init S bs nw act = Inr p0"
    and "0 \<le> bs"
    and "run evs (boot p0) = Some s"
  shows "int (card (dom (buffer (prefetcher s)))) \<le> bs \<and>
         dom (buffer (prefetcher s))
           \<subseteq> set (py_slice S (int (current_index (prefetcher s)))
                    (int (current_index (prefetcher s)) + bs))"
proof -
  have "within_window (prefetcher (boot p0))"
    using assms(1,2) by (simp add: boot_def within_window_init)
  then have w: "within_window (prefetcher s)"
    using assms(3) by (rule within_window_run)
  have "buffer_size (prefetcher s) = bs \<and> indicies (prefetcher s) = S"
    using run_fixed [OF assms(3)] init_fixed [OF assms(1)] by (simp add: boot_def)
  with w within_window_card [OF w] show ?thesis
    by (auto simp: within_window_def needed_indices_def)
qed

theorem bounded_look_ahead_witness:
  "FramePrefetcher_init [5, 6, 7] 2 2 ''process'' = Inr demo_start \<and> (0::int) \<le> 2 \<and>
   map_option (\<lambda>s. card (dom (buffer (prefetcher s)))) (run demo_events (boot demo_start))
     = Some 1"
proof -
  obtain s where r: "run demo_events (boot demo_start) = Some s"
    and b: "dom (buffer (prefetcher s)) = {7}"
    by (simp add: eval_defs demo_start_def demo_events_def)
  have "int (card (dom (buffer (prefetcher s)))) \<le> 2"
    using bounded_look_ahead [OF demo_init _ r] by simp
  with demo_init r b show ?thesis by simp
qed

text \<open>
  Claim C9. While the sequence is not exhausted, \<open>get_frame\<close> called with an index
  other than \<open>indicies[current_index]\<close> raises the out-of-order \<open>ValueError\<close>,
  which names the index requested and the index expected. With the sequence 5, 6, 7,
  asking for 6 first fails naming 5.
\<close>

theorem get_frame_out_of_order:
  assumes "current_index p < length (indicies p)"
    and "idx \<noteq> indicies p ! current_index p"
  shows "get_frame idx p = Raised (ValueError_out_of_order idx (indicies p ! current_index p))"
  using assms by (simp add: get_frame_def get_frame_pop_def)

theorem get_frame_out_of_order_witness:
  "FramePrefetcher_init [5, 6, 7] 2 2 ''process'' = Inr demo_start \<and>
   current_index demo_start < length (indicies demo_start) \<and>
   6 \<noteq> indicies demo_start ! current_index demo_start \<and>
   get_frame 6 demo_start = Raised (ValueError_out_of_order 6 5)"
proof -
  have c: "current_index demo_start < length (indicies demo_start)"
    by (simp add: demo_start_def)
  have i: "6 \<noteq> indicies demo_start ! current_index demo_start"
    by (simp add: demo_start_def)
  have "indicies demo_start ! current_index demo_start = 5"
    by (simp add: demo_start_def)
  with get_frame_out_of_order [OF c i] c i demo_init show ?thesis by simp
qed

text \<open>
  Claim C10. \<open>process_frames\<close> builds its prefetcher with \<open>buffer_size\<close> and
  \<open>num_workers\<close> both equal to \<open>min(len(indices), 32)\<close>, hence at most 32. For
  an empty index list that is 0, and the thread pool refuses to be built.
\<close>

theorem process_frames_pool_size:
  "case process_frames_prefetcher indices :: error + 'r FramePrefetcher of
     Inl e \<Rightarrow> indices = [] \<and> e = ValueError_max_workers
   | Inr p \<Rightarrow> indices \<noteq> [] \<and> indicies p = indices \<and>
       buffer_size p = min (int (length indices)) 32 \<and>
       max_workers p = min (int (length indices)) 32 \<and>
       buffer_size p \<le> 32 \<and> max_workers p \<le> 32"
proof (cases "process_frames_prefetcher indices :: error + 'r FramePrefetcher")
  case (Inl e)
  then show ?thesis
    by (auto simp: process_frames_prefetcher_def FramePrefetcher_init_def select_action_def
        ThreadPoolExecutor_def Let_def min_def split: if_splits)
next
  case (Inr p)
  then have i: "FramePrefetcher_init indices (min (int (length indices)) 32)
      (min (int (length indices)) 32) ''process'' = Inr p"
    by (simp add: process_frames_prefetcher_def Let_def)
  then have "0 < min (int (length indices)) 32" by (rule init_fields)
  then have "indices \<noteq> []" by auto
  with init_fixed [OF i] Inr show ?thesis by simp
qed

section \<open>Properties of the frames\<close>

subsection \<open>Merging the initial metadata\<close>

lemma update_absent: "map_of al k = None \<Longrightarrow> AList.update k v al = al @ [(k, v)]"
  by (induction al) (auto split: if_splits)

lemma fold_add_missing_map:
  "map_of (fold add_missing ds em) = map_of ds ++ map_of em"
proof (induction ds arbitrary: em)
  case Nil
  show ?case by simp
next
  case (Cons kv ds)
  obtain k v where kv: "kv = (k, v)" by (cases kv)
  show ?case
  proof (cases "map_of em k")
    case None
    then have a: "add_missing kv em = AList.update k v em"
      by (simp add: add_missing_def kv)
    have "map_of (fold add_missing (kv # ds) em) = map_of ds ++ map_of (AList.update k v em)"
      by (simp add: a Cons)
    also have "\<dots> = map_of (kv # ds) ++ map_of em"
      using None by (auto simp: kv AList.update_conv' fun_eq_iff map_add_def
          split: option.splits)
    finally show ?thesis .
  next
    case (Some b)
    then have a: "add_missing kv em = em"
      by (simp add: add_missing_def kv)
    have "map_of (fold add_missing (kv # ds) em) = map_of ds ++ map_of em"
      by (simp add: a Cons)
    also have "\<dots> = map_of (kv # ds) ++ map_of em"
      using Some by (auto simp: kv fun_eq_iff map_add_def split: option.splits)
    finally show ?thesis .
  qed
qed

lemma fold_add_missing_prefix:
  "\<exists>added. fold add_missing ds em = em @ added"
proof (induction ds arbitrary: em)
  case Nil
  show ?case by simp
next
  case (Cons kv ds)
  show ?case
  proof (cases "map_of em (fst kv)")
    case None
    then have "add_missing kv em = em @ [(fst kv, snd kv)]"
      by (simp add: add_missing_def update_absent)
    with Cons [of "em @ [(fst kv, snd kv)]"] show ?thesis by auto
  next
    case (Some a)
    then have "add_missing kv em = em" by (simp add: add_missing_def)
    with Cons [of em] show ?thesis by simp
  qed
qed

lemma fold_add_missing_same:
  "\<forall>kv\<in>set ds. map_of em (fst kv) \<noteq> None \<Longrightarrow> fold add_missing ds em = em"
proof (induction ds)
  case Nil
  show ?case by simp
next
  case (Cons kv ds)
  from Cons.prems have "map_of em (fst kv) \<noteq> None" by simp
  then have "add_missing kv em = em" unfolding add_missing_def by auto
  with Cons show ?case by simp
qed

subsection \<open>Closed forms of construction and of the two actions\<close>

lemma load_metadata_eq:
  "load_metadata self w =
     (self\<lparr>metadata := loaded (initial_metadata self) w (frame_index self)\<rparr>,
      w\<lparr>frames_metadata := (frames_metadata w)
           (frame_index self \<mapsto> loaded (initial_metadata self) w (frame_index self))\<rparr>)"
  by (simp add: load_metadata_def loaded_def save_metadata_def Let_def split: option.splits)

lemma RobotFrame_init_eq:
  "RobotFrame_init i w =
     (if frames w i = None then (Inl (FileNotFoundError i), w)
      else (Inr \<lparr>frame_index = i, image_cache = None,
                 initial_metadata = robot_initial_metadata,
                 metadata = loaded robot_initial_metadata w i\<rparr>,
            w\<lparr>frames_metadata := (frames_metadata w)
                 (i \<mapsto> loaded robot_initial_metadata w i)\<rparr>))"
  by (simp add: RobotFrame_init_def Frame_init_def load_metadata_eq)

lemma map_of_loaded:
  "map_of (loaded initial w i) =
     map_of initial ++ (case frames_metadata w i of None \<Rightarrow> Map.empty | Some ex \<Rightarrow> map_of ex)"
  by (simp add: loaded_def fold_add_missing_map split: option.splits)

lemma loaded_iq_id:
  "\<exists>tok. map_of (loaded robot_initial_metadata w i) ''iq_id'' = Some tok"
  by (auto simp: map_of_loaded robot_initial_metadata_def map_add_def split: option.splits)

lemma loaded_answer:
  "\<exists>a. map_of (loaded robot_initial_metadata w i) ''is_upside_down'' = Some a"
  by (auto simp: map_of_loaded robot_initial_metadata_def map_add_def split: option.splits)

lemma loaded_keeps:
  "frames_metadata w i = Some md \<Longrightarrow> map_of md k = Some v \<Longrightarrow>
   map_of (loaded initial w i) k = Some v"
  by (simp add: map_of_loaded map_add_def)

lemma loaded_again:
  assumes "frames_metadata w i = Some md"
    and "\<forall>kv\<in>set initial. map_of md (fst kv) \<noteq> None"
  shows "loaded initial w i = md"
  using assms by (simp add: loaded_def fold_add_missing_same)

lemma update_metadata_eq:
  "update_metadata gl iq self w =
     (self\<lparr>metadata := recorded gl iq (metadata self)\<rparr>,
      w\<lparr>frames_metadata := (frames_metadata w)
           (frame_index self \<mapsto> recorded gl iq (metadata self))\<rparr>)"
  by (simp add: update_metadata_def recorded_def save_metadata_def Let_def)

lemma recorded_iq_id: "map_of (recorded gl iq md) ''iq_id'' = Some (JStr (ident iq))"
  by (simp add: recorded_def AList.update_conv')

lemma recorded_answer:
  "map_of (recorded gl iq md) ''is_upside_down'' =
     (if confidence_threshold gl \<le> confidence iq \<and> label iq \<noteq> UNCLEAR
      then Some (JBool (label iq = YES)) else map_of md ''is_upside_down'')"
  by (simp add: recorded_def AList.update_conv')

lemma process_fresh_eq:
  assumes "frames w i = Some im"
  shows "process_fresh gl i w =
    (if map_of (loaded robot_initial_metadata w i) ''iq_id'' = Some JNull
     then
       (case ask_ml gl (ask_ml_calls w) (Some im) of
          Inl e \<Rightarrow>
            (Inl e, w\<lparr>frames_metadata := (frames_metadata w)
                        (i \<mapsto> loaded robot_initial_metadata w i),
                      ask_ml_calls := ask_ml_calls w + 1\<rparr>)
        | Inr iq \<Rightarrow>
            (Inr \<lparr>pf_index = i, pf_image = im,
                  pf_metadata = recorded gl iq (loaded robot_initial_metadata w i)\<rparr>,
             w\<lparr>frames_metadata := (frames_metadata w)
                  (i \<mapsto> recorded gl iq (loaded robot_initial_metadata w i)),
               ask_ml_calls := ask_ml_calls w + 1\<rparr>))
     else
       (Inr \<lparr>pf_index = i, pf_image = im,
             pf_metadata = loaded robot_initial_metadata w i\<rparr>,
        w\<lparr>frames_metadata := (frames_metadata w)
              (i \<mapsto> loaded robot_initial_metadata w i)\<rparr>))"
proof -
  obtain tok where tok: "map_of (loaded robot_initial_metadata w i) ''iq_id'' = Some tok"
    using loaded_iq_id by blast
  show ?thesis
    using assms tok
    by (simp add: process_fresh_def RobotFrame_init_eq process_frame_def dict_get_def
        get_image_def make_result_def update_metadata_eq ProcessedFrame_new_def Let_def
        split: sum.splits)
qed

lemma update_fresh_eq:
  assumes "frames w i = Some im"
  shows "update_fresh gl i w =
    (let m = loaded robot_initial_metadata w i;
         w0 = w\<lparr>frames_metadata := (frames_metadata w)(i \<mapsto> m)\<rparr>
     in if map_of m ''iq_id'' = Some JNull then (Inl (ValueError_no_iq_id i), w0)
        else if map_of m ''is_upside_down'' = Some JNull then
          (case get_image_query gl (get_image_query_calls w) (the (map_of m ''iq_id'')) of
             Inl e \<Rightarrow> (Inl e, w0\<lparr>get_image_query_calls := get_image_query_calls w + 1\<rparr>)
           | Inr iq \<Rightarrow>
               (Inr (), w\<lparr>frames_metadata := (frames_metadata w)(i \<mapsto> recorded gl iq m),
                          get_image_query_calls := get_image_query_calls w + 1\<rparr>))
        else (Inr (), w0))"
proof -
  obtain tok where tok: "map_of (loaded robot_initial_metadata w i) ''iq_id'' = Some tok"
    using loaded_iq_id by blast
  obtain a where a: "map_of (loaded robot_initial_metadata w i) ''is_upside_down'' = Some a"
    using loaded_answer by blast
  show ?thesis
    using assms tok a
    by (simp add: update_fresh_def RobotFrame_init_eq update_frame_def dict_get_def
        update_metadata_eq Let_def split: sum.splits)
qed

lemma fresh_missing:
  assumes "frames w i = None"
  shows "process_fresh gl i w = (Inl (FileNotFoundError i), w)"
    and "update_fresh gl i w = (Inl (FileNotFoundError i), w)"
  using assms by (simp_all add: process_fresh_def update_fresh_def RobotFrame_init_eq)

subsection \<open>The recorded answer under the actions\<close>

lemma act_fresh_other:
  assumes "j \<noteq> i"
  shows "answer (act_fresh gl (act, j) w) i = answer w i"
proof (cases "frames w j")
  case None
  then show ?thesis
    by (cases act) (simp_all add: act_fresh_def fresh_missing)
next
  case (Some im)
  have "frames_metadata (act_fresh gl (act, j) w) i = frames_metadata w i"
    using assms Some
    by (cases act)
      (auto simp: act_fresh_def process_fresh_eq update_fresh_eq Let_def split: sum.splits)
  then show ?thesis by (simp add: answer_def)
qed

lemma act_fresh_answer:
  assumes "answer w i = Some a"
  shows "answer (act_fresh gl (act, i) w) i = Some a \<or>
    (\<exists>iq. provenance gl w act i a iq \<and>
       confidence_threshold gl \<le> confidence iq \<and> label iq \<noteq> UNCLEAR \<and>
       answer (act_fresh gl (act, i) w) i = Some (JBool (label iq = YES)))"
proof (cases "frames w i")
  case None
  with assms show ?thesis
    by (cases act) (simp_all add: act_fresh_def fresh_missing)
next
  case (Some im)
  from assms obtain md where md: "frames_metadata w i = Some md"
    "map_of md ''is_upside_down'' = Some a"
    by (auto simp: answer_def split: option.splits)
  let ?m = "loaded robot_initial_metadata w i"
  have a: "map_of ?m ''is_upside_down'' = Some a"
    using md by (simp add: loaded_keeps)
  show ?thesis
  proof (cases act)
    case Process
    show ?thesis
      using Some a
      by (auto simp: Process act_fresh_def process_fresh_eq answer_def recorded_answer
          provenance_def split: sum.splits)
  next
    case Update
    show ?thesis
      using Some a
      by (auto simp: Update act_fresh_def update_fresh_eq answer_def recorded_answer
          provenance_def Let_def split: sum.splits)
  qed
qed

lemma answered_fold:
  assumes "answer w i = Some a" "a \<noteq> JNull"
  shows "\<exists>a'. answer (fold (act_fresh gl) acts w) i = Some a' \<and> a' \<noteq> JNull"
  using assms
proof (induction acts arbitrary: w a)
  case Nil
  then show ?case by simp
next
  case (Cons x acts)
  obtain act j where x: "x = (act, j)" by (cases x)
  have "\<exists>b. answer (act_fresh gl x w) i = Some b \<and> b \<noteq> JNull"
  proof (cases "j = i")
    case True
    with act_fresh_answer [OF Cons.prems(1), of gl act] Cons.prems(2) show ?thesis
      by (auto simp: x)
  next
    case False
    with act_fresh_other [of j i gl act w] Cons.prems show ?thesis by (simp add: x)
  qed
  then obtain b where "answer (act_fresh gl x w) i = Some b" "b \<noteq> JNull" by blast
  then show ?case using Cons.IH by simp
qed

lemmas frame_defs = process_fresh_def update_fresh_def act_fresh_def RobotFrame_init_def
  robot_initial_metadata_def Frame_init_def load_metadata_def save_metadata_def add_missing_def
  process_frame_def update_frame_def update_metadata_def make_result_def get_image_def
  dict_get_def ProcessedFrame_new_def answer_def Let_def

section \<open>The claims about the frames\<close>

text \<open>
  Claim C6. When the stored record of a frame holds a non-null \<open>iq_id\<close>,
  \<open>process_frame\<close> on a fresh instance returns the stored record (with any missing
  default key added at its end), writes that record back and changes nothing else: the
  request counters stay as they were, so no query is issued. And whenever
  \<open>process_frame\<close> on a fresh instance returns a result, it has sent at most one
  \<open>ask_ml\<close> request, and a second call on another fresh instance returns the same
  result and leaves files and counters exactly as the first call left them.
\<close>

theorem process_idempotent:
  "(frames w i = Some im \<and> frames_metadata w i = Some md \<and>
    map_of md ''iq_id'' = Some tok \<and> tok \<noteq> JNull \<longrightarrow>
      (\<exists>m added.
         process_fresh gl i w =
           (Inr \<lparr>pf_index = i, pf_image = im, pf_metadata = m\<rparr>,
            w\<lparr>frames_metadata := (frames_metadata w)(i \<mapsto> m)\<rparr>) \<and>
         m = md @ added \<and> map_of m = map_of robot_initial_metadata ++ map_of md)) \<and>
   (process_fresh gl i w = (Inr r, w1) \<longrightarrow>
      ask_ml_calls w1 \<le> ask_ml_calls w + 1 \<and> process_fresh gl i w1 = (Inr r, w1))"
proof -
  have cached: "\<exists>m added.
         process_fresh gl i w =
           (Inr \<lparr>pf_index = i, pf_image = im, pf_metadata = m\<rparr>,
            w\<lparr>frames_metadata := (frames_metadata w)(i \<mapsto> m)\<rparr>) \<and>
         m = md @ added \<and> map_of m = map_of robot_initial_metadata ++ map_of md"
    if h: "frames w i = Some im \<and> frames_metadata w i = Some md \<and>
    map_of md ''iq_id'' = Some tok \<and> tok \<noteq> JNull"
  proof -
    let ?m = "loaded robot_initial_metadata w i"
    have "map_of ?m ''iq_id'' = Some tok" using h by (simp add: loaded_keeps)
    then have run: "process_fresh gl i w =
        (Inr \<lparr>pf_index = i, pf_image = im, pf_metadata = ?m\<rparr>,
         w\<lparr>frames_metadata := (frames_metadata w)(i \<mapsto> ?m)\<rparr>)"
      using h by (simp add: process_fresh_eq)
    obtain added where "?m = md @ added"
      using h fold_add_missing_prefix [of robot_initial_metadata md] by (auto simp: loaded_def)
    moreover have "map_of ?m = map_of robot_initial_metadata ++ map_of md"
      using h by (simp add: map_of_loaded)
    ultimately show ?thesis
      using run by blast
  qed
  have again: "ask_ml_calls w1 \<le> ask_ml_calls w + 1 \<and> process_fresh gl i w1 = (Inr r, w1)"
    if run: "process_fresh gl i w = (Inr r, w1)"
  proof -
    from run obtain im where im: "frames w i = Some im"
      using fresh_missing(1) [of w i gl] by (cases "frames w i") auto
    let ?m = "loaded robot_initial_metadata w i"
    obtain t where t: "map_of ?m ''iq_id'' = Some t" using loaded_iq_id by blast
    obtain a where a: "map_of ?m ''is_upside_down'' = Some a" using loaded_answer by blast
    have "\<exists>m' t'. r = \<lparr>pf_index = i, pf_image = im, pf_metadata = m'\<rparr> \<and>
        frames w1 = frames w \<and> frames_metadata w1 = (frames_metadata w)(i \<mapsto> m') \<and>
        ask_ml_calls w1 \<le> ask_ml_calls w + 1 \<and>
        map_of m' ''iq_id'' = Some t' \<and> t' \<noteq> JNull \<and> map_of m' ''is_upside_down'' \<noteq> None"
    proof (cases "t = JNull")
      case True
      with run im t obtain iq where "ask_ml gl (ask_ml_calls w) (Some im) = Inr iq"
        and "r = \<lparr>pf_index = i, pf_image = im, pf_metadata = recorded gl iq ?m\<rparr>"
        and "w1 = w\<lparr>frames_metadata := (frames_metadata w)(i \<mapsto> recorded gl iq ?m),
                    ask_ml_calls := ask_ml_calls w + 1\<rparr>"
        by (auto simp: process_fresh_eq split: sum.splits)
      then show ?thesis
        using a by (auto simp: recorded_iq_id recorded_answer)
    next
      case False
      with run im t have "r = \<lparr>pf_index = i, pf_image = im, pf_metadata = ?m\<rparr>"
        and "w1 = w\<lparr>frames_metadata := (frames_metadata w)(i \<mapsto> ?m)\<rparr>"
        by (auto simp: process_fresh_eq)
      then show ?thesis using t a False by auto
    qed
    then obtain m' t' where r: "r = \<lparr>pf_index = i, pf_image = im, pf_metadata = m'\<rparr>"
      and fr: "frames w1 = frames w"
      and fm: "frames_metadata w1 = (frames_metadata w)(i \<mapsto> m')"
      and calls: "ask_ml_calls w1 \<le> ask_ml_calls w + 1"
      and t': "map_of m' ''iq_id'' = Some t'" "t' \<noteq> JNull"
      and a': "map_of m' ''is_upside_down'' \<noteq> None"
      by blast
    have same: "loaded robot_initial_metadata w1 i = m'"
      by (rule loaded_again) (use fm t' a' in \<open>auto simp: robot_initial_metadata_def\<close>)
    have "(frames_metadata w1)(i \<mapsto> m') = frames_metadata w1"
      using fm by simp
    then have "process_fresh gl i w1 = (Inr r, w1)"
      using im fr t' by (simp add: process_fresh_eq same r)
    with calls show ?thesis
      by simp
  qed
  from cached again show ?thesis by blast
qed

theorem process_idempotent_witness:
  "process_fresh demo_gl 0 demo_world = (Inr demo_result, demo_answered) \<and>
   process_fresh demo_gl 0 demo_answered = (Inr demo_result, demo_answered) \<and>
   ask_ml_calls demo_answered = 1 \<and>
   frames demo_answered 0 = Some [1, 2, 3] \<and>
   frames_metadata demo_answered 0 = Some (pf_metadata demo_result) \<and>
   map_of (pf_metadata demo_result) ''iq_id'' = Some (JStr ''iq_1'') \<and>
   JStr ''iq_1'' \<noteq> JNull \<and>
   ask_ml_calls (snd (process_fresh demo_gl 0 demo_answered)) = ask_ml_calls demo_answered"
proof -
  have first: "process_fresh demo_gl 0 demo_world = (Inr demo_result, demo_answered)"
    by (simp add: frame_defs demo_gl_def demo_world_def demo_answered_def demo_result_def)
  have again: "process_fresh demo_gl 0 demo_answered = (Inr demo_result, demo_answered)"
    using process_idempotent [where w = demo_world and i = 0 and gl = demo_gl
        and r = demo_result and ?w1.0 = demo_answered] first
    by blast
  have h: "frames demo_answered 0 = Some [1, 2, 3] \<and>
      frames_metadata demo_answered 0 = Some (pf_metadata demo_result) \<and>
      map_of (pf_metadata demo_result) ''iq_id'' = Some (JStr ''iq_1'') \<and>
      JStr ''iq_1'' \<noteq> JNull"
    by (simp add: demo_answered_def demo_result_def)
  have "\<exists>m. process_fresh demo_gl 0 demo_answered =
      (Inr \<lparr>pf_index = 0, pf_image = [1, 2, 3], pf_metadata = m\<rparr>,
       demo_answered\<lparr>frames_metadata := (frames_metadata demo_answered)(0 \<mapsto> m)\<rparr>)"
    using process_idempotent [where w = demo_answered and i = 0 and im = "[1, 2, 3]"
        and md = "pf_metadata demo_result" and tok = "JStr ''iq_1''" and gl = demo_gl] h
    by blast
  then have "ask_ml_calls (snd (process_fresh demo_gl 0 demo_answered))
      = ask_ml_calls demo_answered"
    by auto
  with first again h show ?thesis by (simp add: demo_answered_def)
qed

text \<open>
  Claim C7. A non-null answer on disk stays non-null under any sequence of
  \<open>process_frame\<close> and \<open>update_frame\<close> calls on fresh instances, for this and
  for other frames, whatever the service returns or raises. A single call changes the
  recorded answer of its frame only to the label of an image query it obtained itself
  whose confidence reaches the detector's threshold and whose label is not UNCLEAR (and
  \<open>update_frame\<close> only when the answer was null). \<open>_update_metadata\<close> with a
  result below the threshold or UNCLEAR leaves the answer as it was, null included, in
  the frame and on disk.
\<close>

theorem answer_never_regresses:
  "(answer w i = Some a \<and> a \<noteq> JNull \<longrightarrow>
      (\<exists>a'. answer (fold (act_fresh gl) acts w) i = Some a' \<and> a' \<noteq> JNull)) \<and>
   (answer w i = Some a \<and> answer (act_fresh gl (act, i) w) i \<noteq> Some a \<longrightarrow>
      (\<exists>iq. provenance gl w act i a iq \<and>
         confidence_threshold gl \<le> confidence iq \<and> label iq \<noteq> UNCLEAR \<and>
         answer (act_fresh gl (act, i) w) i = Some (JBool (label iq = YES)))) \<and>
   (\<not> (confidence_threshold gl \<le> confidence iq' \<and> label iq' \<noteq> UNCLEAR) \<longrightarrow>
      map_of (metadata (fst (update_metadata gl iq' self w))) ''is_upside_down''
        = map_of (metadata self) ''is_upside_down'' \<and>
      answer (snd (update_metadata gl iq' self w)) (frame_index self)
        = map_of (metadata self) ''is_upside_down'')"
proof -
  have one: "\<exists>a'. answer (fold (act_fresh gl) acts w) i = Some a' \<and> a' \<noteq> JNull"
    if "answer w i = Some a \<and> a \<noteq> JNull"
    using that answered_fold by blast
  have two: "\<exists>iq. provenance gl w act i a iq \<and>
         confidence_threshold gl \<le> confidence iq \<and> label iq \<noteq> UNCLEAR \<and>
         answer (act_fresh gl (act, i) w) i = Some (JBool (label iq = YES))"
    if "answer w i = Some a \<and> answer (act_fresh gl (act, i) w) i \<noteq> Some a"
    using that act_fresh_answer [of w i a gl act] by blast
  have three: "map_of (metadata (fst (update_metadata gl iq' self w))) ''is_upside_down''
        = map_of (metadata self) ''is_upside_down'' \<and>
      answer (snd (update_metadata gl iq' self w)) (frame_index self)
        = map_of (metadata self) ''is_upside_down''"
    if "\<not> (confidence_threshold gl \<le> confidence iq' \<and> label iq' \<noteq> UNCLEAR)"
    using that by (auto simp: update_metadata_eq recorded_answer answer_def)
  from one two three show ?thesis by blast
qed

theorem answer_never_regresses_witness:
  "answer demo_answered 0 = Some (JBool False) \<and> JBool False \<noteq> JNull \<and>
   answer (fold (act_fresh demo_gl) [(Update, 0), (Process, 0), (Process, 1)] demo_answered) 0
     = Some (JBool False) \<and>
   answer demo_pending 0 = Some JNull \<and>
   answer (act_fresh demo_gl (Process, 0) demo_pending) 0 = Some (JBool False) \<and>
   \<not> (confidence_threshold demo_gl \<le> confidence demo_unclear \<and> label demo_unclear \<noteq> UNCLEAR) \<and>
   answer (snd (update_metadata demo_gl demo_unclear demo_self demo_world)) 0
     = Some (JBool True)"
proof -
  have h1: "answer demo_answered 0 = Some (JBool False) \<and> JBool False \<noteq> JNull"
    by (simp add: answer_def demo_answered_def)
  have c1: "answer (fold (act_fresh demo_gl) [(Update, 0), (Process, 0), (Process, 1)]
      demo_answered) 0 = Some (JBool False)"
    by (simp add: frame_defs demo_gl_def demo_answered_def)
  have "\<exists>a'. answer (fold (act_fresh demo_gl) [(Update, 0), (Process, 0), (Process, 1)]
      demo_answered) 0 = Some a' \<and> a' \<noteq> JNull"
    using answer_never_regresses [where w = demo_answered and i = 0 and a = "JBool False"
        and gl = demo_gl and acts = "[(Update, 0), (Process, 0), (Process, 1)]"] h1
    by blast
  have h2: "answer demo_pending 0 = Some JNull \<and>
      answer (act_fresh demo_gl (Process, 0) demo_pending) 0 \<noteq> Some JNull"
    by (simp add: frame_defs demo_gl_def demo_pending_def)
  obtain iq where iq: "provenance demo_gl demo_pending Process 0 JNull iq"
    "answer (act_fresh demo_gl (Process, 0) demo_pending) 0 = Some (JBool (label iq = YES))"
    using answer_never_regresses [where w = demo_pending and i = 0 and a = JNull
        and gl = demo_gl and act = Process] h2
    by blast
  then have "label iq = NO"
    by (auto simp: provenance_def demo_gl_def)
  with iq have c2: "answer (act_fresh demo_gl (Process, 0) demo_pending) 0 = Some (JBool False)"
    by simp
  have h3: "\<not> (confidence_threshold demo_gl \<le> confidence demo_unclear \<and>
      label demo_unclear \<noteq> UNCLEAR)"
    by (simp add: demo_unclear_def)
  have "answer (snd (update_metadata demo_gl demo_unclear demo_self demo_world))
      (frame_index demo_self) = map_of (metadata demo_self) ''is_upside_down''"
    using answer_never_regresses [where w = demo_world and gl = demo_gl
        and iq' = demo_unclear and self = demo_self] h3
    by blast
  then have c3: "answer (snd (update_metadata demo_gl demo_unclear demo_self demo_world)) 0
      = Some (JBool True)"
    by (simp add: demo_self_def)
  from h1 c1 h2 c2 h3 c3 show ?thesis by simp
qed

text \<open>
  Claim C8. \<open>load_metadata\<close> writes what it loads to the frame's metadata file.
  With no file, that is the initial metadata. With a file, it is the stored record
  followed by added entries: every stored key keeps its value, the keys are those of
  the record and of the initial metadata, and a key of the initial metadata that the
  record lacks gets its initial value. The record \<open>{"a": 1}\<close> with
  \<open>{"a": 99, "b": 2}\<close> gives \<open>{"a": 1, "b": 2}\<close>, loaded and stored.
\<close>

theorem load_metadata_merges:
  assumes "load_metadata self w = (self', w')"
  shows "frames_metadata w' = (frames_metadata w)(frame_index self \<mapsto> metadata self') \<and>
    (case frames_metadata w (frame_index self) of
       None \<Rightarrow> metadata self' = initial_metadata self
     | Some existing \<Rightarrow>
         map_of (metadata self') = map_of (initial_metadata self) ++ map_of existing \<and>
         (\<exists>added. metadata self' = existing @ added) \<and>
         (\<forall>k v. map_of existing k = Some v \<longrightarrow> map_of (metadata self') k = Some v) \<and>
         dom (map_of (metadata self'))
           = dom (map_of existing) \<union> dom (map_of (initial_metadata self)))"
proof (cases "frames_metadata w (frame_index self)")
  case None
  with assms show ?thesis
    by (auto simp: load_metadata_def save_metadata_def Let_def)
next
  case (Some existing)
  with assms have m: "metadata self' = fold add_missing (initial_metadata self) existing"
    and w': "frames_metadata w' = (frames_metadata w)(frame_index self \<mapsto> metadata self')"
    by (auto simp: load_metadata_def save_metadata_def Let_def)
  have eq: "map_of (metadata self') = map_of (initial_metadata self) ++ map_of existing"
    unfolding m by (rule fold_add_missing_map)
  have pre: "\<exists>added. metadata self' = existing @ added"
    unfolding m by (rule fold_add_missing_prefix)
  have keep: "\<forall>k v. map_of existing k = Some v \<longrightarrow> map_of (metadata self') k = Some v"
    unfolding eq by (simp add: map_add_def)
  have "dom (map_of (metadata self'))
           = dom (map_of existing) \<union> dom (map_of (initial_metadata self))"
    unfolding eq by auto
  with Some w' eq pre keep show ?thesis by simp
qed

theorem load_metadata_merges_witness:
  "metadata (fst (load_metadata demo_frame demo_disk)) = [(''a'', JInt 1), (''b'', JInt 2)] \<and>
   frames_metadata (snd (load_metadata demo_frame demo_disk)) 3
     = Some [(''a'', JInt 1), (''b'', JInt 2)]"
proof -
  obtain self' w' where l: "load_metadata demo_frame demo_disk = (self', w')"
    by (cases "load_metadata demo_frame demo_disk")
  have m: "metadata self' = [(''a'', JInt 1), (''b'', JInt 2)]"
    using l by (auto simp: load_metadata_def save_metadata_def add_missing_def Let_def
        demo_frame_def demo_disk_def)
  have "frames_metadata w' = (frames_metadata demo_disk)(frame_index demo_frame \<mapsto> metadata self')"
    using load_metadata_merges [OF l] by blast
  then have "frames_metadata w' 3 = Some (metadata self')"
    by (simp add: demo_frame_def)
  with l m show ?thesis by simp
qed

end
